theory Spec2Isabelle
  imports Complex_Main "HOL-Library.Word" "HOL-Library.Sublist" "HOL-Library.Multiset"
begin

chapter \<open>The program\<close>

section \<open>JavaScript strings\<close>

text \<open>
  A JavaScript string is a sequence of 16-bit code units; \<open>length\<close> counts code units,
  as the script's \<open>text.length\<close> does. String literals of the source are written
  \<open>js ''...''\<close>.
\<close>

type_synonym code_unit = "16 word"
type_synonym jsstring = "code_unit list"

definition js :: "string \<Rightarrow> jsstring" where
  "js s = map of_char s"

text \<open>
  \<open>String.prototype.trim\<close> removes the WhiteSpace and LineTerminator code units of the
  language from both ends.
\<close>

definition isWhiteSpace :: "code_unit \<Rightarrow> bool" where
  "isWhiteSpace c =
     (c = 0x09 \<or> c = 0x0A \<or> c = 0x0B \<or> c = 0x0C \<or> c = 0x0D \<or> c = 0x20 \<or> c = 0xA0
      \<or> c = 0x1680 \<or> (0x2000 \<le> c \<and> c \<le> 0x200A) \<or> c = 0x2028 \<or> c = 0x2029
      \<or> c = 0x202F \<or> c = 0x205F \<or> c = 0x3000 \<or> c = 0xFEFF)"

definition trim :: "jsstring \<Rightarrow> jsstring" where
  "trim s = rev (dropWhile isWhiteSpace (rev (dropWhile isWhiteSpace s)))"

definition endsWith :: "jsstring \<Rightarrow> jsstring \<Rightarrow> bool" where
  "endsWith s t = suffix t s"

definition str_includes :: "jsstring \<Rightarrow> jsstring \<Rightarrow> bool" where
  "str_includes s t = sublist t s"

text \<open>
  \<open>toLowerCase\<close> on the letters A to Z. The browser's function also lowers letters
  outside ASCII; none of them becomes a letter of \<open>user-query\<close>, the only string a
  lowered tag name is compared with, so the comparison is the same.
\<close>

definition lowerUnit :: "code_unit \<Rightarrow> code_unit" where
  "lowerUnit c = (if 0x41 \<le> c \<and> c \<le> 0x5A then c + 0x20 else c)"

definition toLowerCase :: "jsstring \<Rightarrow> jsstring" where
  "toLowerCase s = map lowerUnit s"

text \<open>
  \<open>/user|query|human|prompt|request/i.test(cls)\<close>: one of the five words occurs in
  \<open>cls\<close>, letters compared without regard to ASCII case (with the \<open>i\<close> flag an ASCII
  letter of the pattern matches its two ASCII forms and nothing else).
\<close>

definition humanWords :: "jsstring list" where
  "humanWords = [js ''user'', js ''query'', js ''human'', js ''prompt'', js ''request'']"

definition testHumanPattern :: "jsstring \<Rightarrow> bool" where
  "testHumanPattern cls = list_ex (\<lambda>w. str_includes (toLowerCase cls) w) humanWords"

section \<open>JSON\<close>

text \<open>
  \<open>JSON.stringify\<close> and \<open>JSON.parse\<close> carry every result from the page to the tool
  and from the tool to its output files. The values the repository serialises are
  strings, arrays and plain objects with string-valued leaves.
\<close>

datatype jsvalue =
    VString jsstring
  | VArray "jsvalue list"
  | VObject "(jsstring \<times> jsvalue) list"

text \<open>
  What \<open>JSON.parse\<close> returns. Turning the text of a number into a double is left to
  the parameter \<open>num\<close> of the parser; \<open>'n\<close> is the type of numbers, compared as
  \<open>Set\<close> compares them.
\<close>

datatype 'n json =
    JNull
  | JBool bool
  | JNumber 'n
  | JString jsstring
  | JArray "'n json list"
  | JObject "(jsstring \<times> 'n json) list"

subsection \<open>Serialisation\<close>

definition hexDigit :: "nat \<Rightarrow> code_unit" where
  "hexDigit d = (if d < 10 then 0x30 + of_nat d else 0x61 + of_nat (d - 10))"

text \<open>\<open>\uXXXX\<close> with four lower-case hexadecimal digits.\<close>

definition UnicodeEscape :: "code_unit \<Rightarrow> jsstring" where
  "UnicodeEscape c =
     [0x5C, 0x75, hexDigit (unat c div 4096), hexDigit (unat c div 256 mod 16),
      hexDigit (unat c div 16 mod 16), hexDigit (unat c mod 16)]"

definition isLeadSurrogate :: "code_unit \<Rightarrow> bool" where
  "isLeadSurrogate c = (0xD800 \<le> c \<and> c \<le> 0xDBFF)"

definition isTrailSurrogate :: "code_unit \<Rightarrow> bool" where
  "isTrailSurrogate c = (0xDC00 \<le> c \<and> c \<le> 0xDFFF)"

text \<open>
  One code unit that is not half of a surrogate pair: the short escapes, \<open>\uXXXX\<close> for
  the other control characters and for a lone surrogate, the unit itself otherwise.
\<close>

definition quoteUnit :: "code_unit \<Rightarrow> jsstring" where
  "quoteUnit c =
     (if c = 0x08 then [0x5C, 0x62]
      else if c = 0x09 then [0x5C, 0x74]
      else if c = 0x0A then [0x5C, 0x6E]
      else if c = 0x0C then [0x5C, 0x66]
      else if c = 0x0D then [0x5C, 0x72]
      else if c = 0x22 then [0x5C, 0x22]
      else if c = 0x5C then [0x5C, 0x5C]
      else if c < 0x20 \<or> isLeadSurrogate c \<or> isTrailSurrogate c then UnicodeEscape c
      else [c])"

fun quoteUnits :: "jsstring \<Rightarrow> jsstring" where
  "quoteUnits [] = []"
| "quoteUnits [c] = quoteUnit c"
| "quoteUnits (c # d # cs) =
     (if isLeadSurrogate c \<and> isTrailSurrogate d then c # d # quoteUnits cs
      else quoteUnit c @ quoteUnits (d # cs))"

definition QuoteJSONString :: "jsstring \<Rightarrow> jsstring" where
  "QuoteJSONString s = [0x22] @ quoteUnits s @ [0x22]"

fun join :: "jsstring \<Rightarrow> jsstring list \<Rightarrow> jsstring" where
  "join sep [] = []"
| "join sep [x] = x"
| "join sep (x # x' # xs) = x @ sep @ join sep (x' # xs)"

fun SerializeJSONProperty :: "jsstring \<Rightarrow> jsstring \<Rightarrow> jsvalue \<Rightarrow> jsstring" where
  "SerializeJSONProperty gap indent (VString s) = QuoteJSONString s"
| "SerializeJSONProperty gap indent (VArray vs) =
     (let stepback = indent;
          indent = indent @ gap;
          partial = map (SerializeJSONProperty gap indent) vs
      in if partial = [] then js ''[]''
         else if gap = [] then js ''['' @ join (js '','') partial @ js '']''
         else js ''['' @ [0x0A] @ indent @ join (js '','' @ [0x0A] @ indent) partial
              @ [0x0A] @ stepback @ js '']'')"
| "SerializeJSONProperty gap indent (VObject ms) =
     (let stepback = indent;
          indent = indent @ gap;
          partial = map (\<lambda>m. QuoteJSONString (fst m) @ js '':''
                              @ (if gap \<noteq> [] then js '' '' else [])
                              @ SerializeJSONProperty gap indent (snd m)) ms
      in if partial = [] then js ''{}''
         else if gap = [] then js ''{'' @ join (js '','') partial @ js ''}''
         else js ''{'' @ [0x0A] @ indent @ join (js '','' @ [0x0A] @ indent) partial
              @ [0x0A] @ stepback @ js ''}'')"

text \<open>\<open>JSON.stringify(v, null, space)\<close>; \<open>JSON.stringify(v)\<close> is \<open>space = 0\<close>.\<close>

definition JSON_stringify :: "jsvalue \<Rightarrow> nat \<Rightarrow> jsstring" where
  "JSON_stringify v space = SerializeJSONProperty (replicate (min space 10) 0x20) [] v"

subsection \<open>Parsing\<close>

definition unhexDigit :: "code_unit \<Rightarrow> nat option" where
  "unhexDigit c =
     (if 0x30 \<le> c \<and> c \<le> 0x39 then Some (unat c - 0x30)
      else if 0x61 \<le> c \<and> c \<le> 0x66 then Some (unat c - 0x61 + 10)
      else if 0x41 \<le> c \<and> c \<le> 0x46 then Some (unat c - 0x41 + 10)
      else None)"

definition unhex4 :: "jsstring \<Rightarrow> code_unit option" where
  "unhex4 s =
     (case s of
        [a, b, c, d] \<Rightarrow>
          (case (unhexDigit a, unhexDigit b, unhexDigit c, unhexDigit d) of
             (Some a', Some b', Some c', Some d') \<Rightarrow>
               Some (of_nat (((a' * 16 + b') * 16 + c') * 16 + d'))
           | _ \<Rightarrow> None)
      | _ \<Rightarrow> None)"

definition unescape :: "code_unit \<Rightarrow> code_unit option" where
  "unescape e =
     (if e = 0x22 then Some 0x22
      else if e = 0x2F then Some 0x2F
      else if e = 0x5C then Some 0x5C
      else if e = 0x62 then Some 0x08
      else if e = 0x66 then Some 0x0C
      else if e = 0x6E then Some 0x0A
      else if e = 0x72 then Some 0x0D
      else if e = 0x74 then Some 0x09
      else None)"

definition consUnit ::
  "code_unit \<Rightarrow> (jsstring \<times> jsstring) option \<Rightarrow> (jsstring \<times> jsstring) option" where
  "consUnit c r = map_option (\<lambda>(s, rest). (c # s, rest)) r"

text \<open>The characters of a string after its opening quote, up to the closing quote.\<close>

fun parseChars :: "jsstring \<Rightarrow> (jsstring \<times> jsstring) option" where
  "parseChars [] = None"
| "parseChars (c # cs) =
     (if c = 0x22 then Some ([], cs)
      else if c = 0x5C then
        (case cs of
           [] \<Rightarrow> None
         | e # es \<Rightarrow>
             if e = 0x75 then
               (case unhex4 (take 4 es) of
                  None \<Rightarrow> None
                | Some u \<Rightarrow> consUnit u (parseChars (drop 4 es)))
             else (case unescape e of
                     None \<Rightarrow> None
                   | Some u \<Rightarrow> consUnit u (parseChars es)))
      else if c < 0x20 then None
      else consUnit c (parseChars cs))"

definition isJSONWhiteSpace :: "code_unit \<Rightarrow> bool" where
  "isJSONWhiteSpace c = (c = 0x09 \<or> c = 0x0A \<or> c = 0x0D \<or> c = 0x20)"

definition skipWS :: "jsstring \<Rightarrow> jsstring" where
  "skipWS s = dropWhile isJSONWhiteSpace s"

definition isDigit :: "code_unit \<Rightarrow> bool" where
  "isDigit c = (0x30 \<le> c \<and> c \<le> 0x39)"

definition parseInteger :: "jsstring \<Rightarrow> (jsstring \<times> jsstring) option" where
  "parseInteger s =
     (case s of
        [] \<Rightarrow> None
      | d # ds \<Rightarrow>
          if d = 0x30 then Some ([d], ds)
          else if isDigit d then Some (takeWhile isDigit s, dropWhile isDigit s)
          else None)"

definition parseFraction :: "jsstring \<Rightarrow> (jsstring \<times> jsstring) option" where
  "parseFraction s =
     (case s of
        [] \<Rightarrow> Some ([], s)
      | c # cs \<Rightarrow>
          if c = 0x2E then
            (if takeWhile isDigit cs = [] then None
             else Some (c # takeWhile isDigit cs, dropWhile isDigit cs))
          else Some ([], s))"

definition parseSign :: "jsstring \<Rightarrow> jsstring \<times> jsstring" where
  "parseSign s =
     (case s of
        [] \<Rightarrow> ([], s)
      | c # cs \<Rightarrow> if c = 0x2B \<or> c = 0x2D then ([c], cs) else ([], s))"

definition parseExponent :: "jsstring \<Rightarrow> (jsstring \<times> jsstring) option" where
  "parseExponent s =
     (case s of
        [] \<Rightarrow> Some ([], s)
      | c # cs \<Rightarrow>
          if c = 0x65 \<or> c = 0x45 then
            (let (sign, r) = parseSign cs in
             if takeWhile isDigit r = [] then None
             else Some (c # sign @ takeWhile isDigit r, dropWhile isDigit r))
          else Some ([], s))"

text \<open>The text of a number token and what follows it.\<close>

definition parseNumber :: "jsstring \<Rightarrow> (jsstring \<times> jsstring) option" where
  "parseNumber s =
     (let (minus, s1) = (case s of [] \<Rightarrow> ([], s)
                          | c # cs \<Rightarrow> if c = 0x2D then ([c], cs) else ([], s))
      in case parseInteger s1 of
           None \<Rightarrow> None
         | Some (digits, s2) \<Rightarrow>
             (case parseFraction s2 of
                None \<Rightarrow> None
              | Some (fraction, s3) \<Rightarrow>
                  (case parseExponent s3 of
                     None \<Rightarrow> None
                   | Some (exponent, s4) \<Rightarrow> Some (minus @ digits @ fraction @ exponent, s4))))"

text \<open>A member with a key the object already has replaces the value in place.\<close>

fun putMember :: "(jsstring \<times> 'v) list \<Rightarrow> jsstring \<Rightarrow> 'v \<Rightarrow> (jsstring \<times> 'v) list" where
  "putMember [] k v = [(k, v)]"
| "putMember ((k', v') # ms) k v =
     (if k' = k then (k, v) # ms else (k', v') # putMember ms k v)"

text \<open>
  The recursive-descent parser. The first number bounds the calls still allowed, so
  that the recursion is structural; \<open>JSON_parse\<close> starts it with more than any text of
  that length can use.
\<close>

fun parseValue :: "(jsstring \<Rightarrow> 'n) \<Rightarrow> nat \<Rightarrow> jsstring \<Rightarrow> ('n json \<times> jsstring) option"
and parseElements ::
  "(jsstring \<Rightarrow> 'n) \<Rightarrow> nat \<Rightarrow> 'n json list \<Rightarrow> jsstring \<Rightarrow> ('n json list \<times> jsstring) option"
and parseMembers ::
  "(jsstring \<Rightarrow> 'n) \<Rightarrow> nat \<Rightarrow> (jsstring \<times> 'n json) list \<Rightarrow> jsstring
     \<Rightarrow> ((jsstring \<times> 'n json) list \<times> jsstring) option"
where
  "parseValue num 0 s = None"
| "parseValue num (Suc n) s =
     (case s of
        [] \<Rightarrow> None
      | c # cs \<Rightarrow>
          if c = 0x22 then map_option (\<lambda>(str, r). (JString str, r)) (parseChars cs)
          else if c = 0x5B then
            (case skipWS cs of
               [] \<Rightarrow> None
             | d # ds \<Rightarrow>
                 if d = 0x5D then Some (JArray [], ds)
                 else map_option (\<lambda>(vs, r). (JArray vs, r)) (parseElements num n [] (d # ds)))
          else if c = 0x7B then
            (case skipWS cs of
               [] \<Rightarrow> None
             | d # ds \<Rightarrow>
                 if d = 0x7D then Some (JObject [], ds)
                 else map_option (\<lambda>(ms, r). (JObject ms, r)) (parseMembers num n [] (d # ds)))
          else if prefix (js ''null'') s then Some (JNull, drop 4 s)
          else if prefix (js ''true'') s then Some (JBool True, drop 4 s)
          else if prefix (js ''false'') s then Some (JBool False, drop 5 s)
          else map_option (\<lambda>(lexeme, r). (JNumber (num lexeme), r)) (parseNumber s))"
| "parseElements num 0 acc s = None"
| "parseElements num (Suc n) acc s =
     (case parseValue num n s of
        None \<Rightarrow> None
      | Some (v, r) \<Rightarrow>
          (case skipWS r of
             [] \<Rightarrow> None
           | c # cs \<Rightarrow>
               if c = 0x2C then parseElements num n (acc @ [v]) (skipWS cs)
               else if c = 0x5D then Some (acc @ [v], cs)
               else None))"
| "parseMembers num 0 acc s = None"
| "parseMembers num (Suc n) acc s =
     (case s of
        [] \<Rightarrow> None
      | q # qs \<Rightarrow>
          if q \<noteq> 0x22 then None
          else (case parseChars qs of
                  None \<Rightarrow> None
                | Some (k, r) \<Rightarrow>
                    (case skipWS r of
                       [] \<Rightarrow> None
                     | c # cs \<Rightarrow>
                         if c \<noteq> 0x3A then None
                         else (case parseValue num n (skipWS cs) of
                                 None \<Rightarrow> None
                               | Some (v, r') \<Rightarrow>
                                   (case skipWS r' of
                                      [] \<Rightarrow> None
                                    | e # es \<Rightarrow>
                                        if e = 0x2C
                                        then parseMembers num n (putMember acc k v) (skipWS es)
                                        else if e = 0x7D then Some (putMember acc k v, es)
                                        else None)))))"

text \<open>\<open>JSON.parse\<close>; \<open>None\<close> is the SyntaxError.\<close>

definition JSON_parse :: "(jsstring \<Rightarrow> 'n) \<Rightarrow> jsstring \<Rightarrow> 'n json option" where
  "JSON_parse num s =
     (case parseValue num (2 * length s + 2) (skipWS s) of
        None \<Rightarrow> None
      | Some (v, r) \<Rightarrow> if skipWS r = [] then Some v else None)"

section \<open>The browser bridge\<close>

text \<open>
  \<open>chromeJS\<close> (browser.mjs) hands a script to \<open>osascript\<close> through \<open>execSync\<close>.
  The call either throws (time-out, transport error, an error thrown by the script) or
  returns what \<open>osascript\<close> printed; \<open>chromeJS\<close> trims the output, and turns a throw
  into the empty string.
\<close>

datatype execution = Threw | Printed jsstring

definition chromeJS :: "execution \<Rightarrow> jsstring" where
  "chromeJS ex = (case ex of Printed result \<Rightarrow> trim result | Threw \<Rightarrow> [])"

text \<open>
  The bridge itself is outside the repository. When it works, \<open>osascript\<close> prints the
  string the script evaluated to, followed by a line feed.
\<close>

datatype bridge = Working | Broken

definition execSync :: "bridge \<Rightarrow> jsstring \<Rightarrow> execution" where
  "execSync b scriptValue =
     (case b of Working \<Rightarrow> Printed (scriptValue @ [0x0A]) | Broken \<Rightarrow> Threw)"

text \<open>What a \<open>try\<close> block can throw.\<close>

datatype js_error = SyntaxError | TypeError

definition parseOrThrow :: "(jsstring \<Rightarrow> 'n) \<Rightarrow> jsstring \<Rightarrow> js_error + 'n json" where
  "parseOrThrow num s = (case JSON_parse num s of None \<Rightarrow> Inl SyntaxError | Some v \<Rightarrow> Inr v)"

section \<open>Chat discovery: the sidebar scroll loop\<close>

text \<open>
  \<open>scrollSidebarToLoadAll\<close> (gemini.mjs, lines 42-94). Every round asks the page twice
  for the number of chat links (\<open>countBefore\<close>, \<open>countAfter\<close>), with the scroll step and
  a sleep in between. \<open>chromeJS\<close> returns strings, and the two are compared with
  \<open>===\<close>. The page is outside the program: \<open>reads k\<close> is what the \<open>k\<close>-th count query
  (counted from 0) returns, so round \<open>i\<close> sees \<open>reads (2 * i)\<close> and
  \<open>reads (2 * i + 1)\<close>. The function returns nothing; the model returns how the loop
  was left.
\<close>

record loop_exit =
  rounds :: nat
  stable_count :: nat
  broke :: bool

function scrollLoop :: "(nat \<Rightarrow> jsstring) \<Rightarrow> nat \<Rightarrow> nat \<Rightarrow> loop_exit" where
  "scrollLoop reads i stableRounds =
     (if i < 100 then
        (if reads (2 * i + 1) = reads (2 * i) then
           (if 5 \<le> stableRounds + 1
            then \<lparr>rounds = i + 1, stable_count = stableRounds + 1, broke = True\<rparr>
            else scrollLoop reads (i + 1) (stableRounds + 1))
         else scrollLoop reads (i + 1) 0)
      else \<lparr>rounds = i, stable_count = stableRounds, broke = False\<rparr>)"
  by pat_completeness auto
termination
  by (relation "measure (\<lambda>(reads, i, stableRounds). 100 - i)") auto

declare scrollLoop.simps [simp del]

definition scrollSidebarToLoadAll :: "(nat \<Rightarrow> jsstring) \<Rightarrow> loop_exit" where
  "scrollSidebarToLoadAll reads = scrollLoop reads 0 0"

section \<open>Chat discovery: collecting the links\<close>

text \<open>
  The script of \<open>collectChats\<close> (gemini.mjs, lines 106-119) maps every anchor matched
  by \<open>a[href*="/app/"]\<close> to its address and the first line of its text, and drops the
  addresses that are no conversations. An anchor is modelled by the two properties the
  script reads, both strings.
\<close>

record anchor =
  anchorHref :: jsstring
  textContent :: jsstring

record link =
  href :: jsstring
  linkText :: jsstring

text \<open>\<open>(a.textContent || '').trim().split('\n')[0].trim()\<close>\<close>

definition firstLine :: "jsstring \<Rightarrow> jsstring" where
  "firstLine s = takeWhile (\<lambda>c. c \<noteq> 0x0A) s"

definition toLink :: "anchor \<Rightarrow> link" where
  "toLink a = \<lparr>href = anchorHref a, linkText = trim (firstLine (trim (textContent a)))\<rparr>"

definition isChatLink :: "link \<Rightarrow> bool" where
  "isChatLink l =
     (\<not> endsWith (href l) (js ''/app'') \<and>
      \<not> endsWith (href l) (js ''/app/'') \<and>
      \<not> str_includes (href l) (js ''/download'') \<and>
      \<not> str_includes (href l) (js ''/settings'') \<and>
      \<not> str_includes (href l) (js ''/extensions'') \<and>
      \<not> str_includes (href l) (js ''accounts.google.com''))"

definition chatLinks :: "anchor list \<Rightarrow> link list" where
  "chatLinks anchors = filter isChatLink (map toLink anchors)"

definition linkValue :: "link \<Rightarrow> jsvalue" where
  "linkValue l = VObject [(js ''href'', VString (href l)), (js ''text'', VString (linkText l))]"

text \<open>The string the script evaluates to.\<close>

definition linksScript :: "anchor list \<Rightarrow> jsstring" where
  "linksScript anchors = JSON_stringify (VArray (map linkValue (chatLinks anchors))) 0"

text \<open>
  The \<open>try\<close> block (lines 122-128) works on whatever \<open>JSON.parse\<close> returned. Calling
  \<open>links.filter\<close> throws a TypeError unless \<open>links\<close> is an array, and reading
  \<open>l.href\<close> throws one when \<open>l\<close> is \<open>null\<close>; on every other value the property is
  \<open>undefined\<close> unless an object has it. The keys of the \<open>Set\<close> are compared by
  value, except that an object or an array is a reference of its own, equal to no key
  seen before.
\<close>

datatype 'n set_key =
  KUndefined | KNull | KBool bool | KNumber 'n | KString jsstring | KReference

fun keyOf :: "'n json \<Rightarrow> 'n set_key" where
  "keyOf JNull = KNull"
| "keyOf (JBool b) = KBool b"
| "keyOf (JNumber n) = KNumber n"
| "keyOf (JString s) = KString s"
| "keyOf (JArray vs) = KReference"
| "keyOf (JObject ms) = KReference"

fun getHref :: "'n json \<Rightarrow> js_error + 'n set_key" where
  "getHref JNull = Inl TypeError"
| "getHref (JObject ms) =
     Inr (case map_of ms (js ''href'') of None \<Rightarrow> KUndefined | Some v \<Rightarrow> keyOf v)"
| "getHref (JBool b) = Inr KUndefined"
| "getHref (JNumber n) = Inr KUndefined"
| "getHref (JString s) = Inr KUndefined"
| "getHref (JArray vs) = Inr KUndefined"

definition has :: "'n set_key list \<Rightarrow> 'n set_key \<Rightarrow> bool" where
  "has seen k = (k \<noteq> KReference \<and> k \<in> set seen)"

fun filterLinks :: "'n json list \<Rightarrow> 'n set_key list \<Rightarrow> js_error + 'n json list" where
  "filterLinks [] seen = Inr []"
| "filterLinks (l # ls) seen =
     (case getHref l of
        Inl e \<Rightarrow> Inl e
      | Inr k \<Rightarrow>
          if has seen k then filterLinks ls seen
          else (case filterLinks ls (seen @ [k]) of
                  Inl e \<Rightarrow> Inl e
                | Inr kept \<Rightarrow> Inr (l # kept)))"

definition tryCollect :: "(jsstring \<Rightarrow> 'n) \<Rightarrow> jsstring \<Rightarrow> js_error + 'n json list" where
  "tryCollect num linksJSON =
     (case parseOrThrow num linksJSON of
        Inl e \<Rightarrow> Inl e
      | Inr links \<Rightarrow>
          (case links of
             JArray ls \<Rightarrow> filterLinks ls []
           | _ \<Rightarrow> Inl TypeError))"

text \<open>
  \<open>collectChats\<close> after the scroll loop: the result of the links script comes through
  \<open>chromeJS\<close>, and the \<open>catch\<close> returns the empty array for whatever was thrown.
\<close>

definition collectChats :: "(jsstring \<Rightarrow> 'n) \<Rightarrow> execution \<Rightarrow> js_error + 'n json list" where
  "collectChats num ex =
     (let linksJSON = chromeJS ex
      in case tryCollect num linksJSON of
           Inl e \<Rightarrow> Inr []
         | Inr kept \<Rightarrow> Inr kept)"

text \<open>\<open>collectChats\<close> on a page with the given anchors, through the given bridge.\<close>

definition collectChatsOn ::
  "(jsstring \<Rightarrow> 'n) \<Rightarrow> bridge \<Rightarrow> anchor list \<Rightarrow> js_error + 'n json list" where
  "collectChatsOn num b anchors = collectChats num (execSync b (linksScript anchors))"

section \<open>Message extraction: the page script\<close>

text \<open>
  The script that \<open>extractMessages\<close> evaluates in the page (gemini.mjs, lines 168-246).
  The browser's selector engine and layout are outside the repository, so a page is
  modelled by what it answers to the script's DOM calls, and an element by the properties
  the script reads from it: \<open>tagName\<close>, \<open>className\<close>, the tokens of \<open>classList\<close>,
  whether \<open>querySelector('[class*="user"]')\<close> finds a descendant, the
  \<open>data-message-author-role\<close> attribute (\<open>None\<close> for \<open>null\<close>), \<open>innerText\<close>
  (\<open>None\<close> for \<open>undefined\<close>, as on elements that are not HTML elements) and
  \<open>getBoundingClientRect().top\<close>, a finite number.
\<close>

record element =
  tagName :: jsstring
  className :: jsstring
  classList :: "jsstring list"
  hasUserDescendant :: bool
  authorRole :: "jsstring option"
  innerText :: "jsstring option"
  rectTop :: real

record container =
  children :: "element list"
  containerText :: "jsstring option"

text \<open>The selectors of the four strategies, in the order of the source.\<close>

datatype selector =
    SelTurns       \<comment> \<open>\<open>user-query, model-response, .conversation-turn, [class*="turn-container"]\<close>\<close>
  | SelQuery       \<comment> \<open>\<open>.query-text, [class*="query-content"], [class*="user-query"], user-query\<close>\<close>
  | SelResponse    \<comment> \<open>\<open>.response-container, .model-response-text, [class*="model-response"], model-response, message-content\<close>\<close>
  | SelAuthorRole  \<comment> \<open>\<open>[data-message-author-role]\<close>\<close>

datatype container_selector =
    SelConversationContainer  \<comment> \<open>\<open>.conversation-container\<close>\<close>
  | SelConversationClass      \<comment> \<open>\<open>[class*="conversation"]\<close>\<close>
  | SelMain                   \<comment> \<open>\<open>main\<close>\<close>

record page =
  matching :: "selector \<Rightarrow> element list"
  firstMatching :: "container_selector \<Rightarrow> container option"

text \<open>
  Reading the page is the script's only effect. Every query on \<open>document\<close> is
  recorded in a log that is passed along, so that the queries a run has made can be told
  from its outcome.
\<close>

datatype dom_call = QuerySelectorAll selector | QuerySelector container_selector

definition querySelectorAll ::
  "page \<Rightarrow> selector \<Rightarrow> dom_call list \<Rightarrow> element list \<times> dom_call list" where
  "querySelectorAll p sel calls = (matching p sel, calls @ [QuerySelectorAll sel])"

definition querySelector ::
  "page \<Rightarrow> container_selector \<Rightarrow> dom_call list \<Rightarrow> container option \<times> dom_call list" where
  "querySelector p sel calls = (firstMatching p sel, calls @ [QuerySelector sel])"

record message =
  role :: jsstring
  content :: jsstring

text \<open>\<open>el.innerText?.trim()\<close>: \<open>undefined\<close> when the element has no \<open>innerText\<close>.\<close>

definition trimmedText :: "jsstring option \<Rightarrow> jsstring option" where
  "trimmedText t = map_option trim t"

text \<open>Strategy 1, the loop over \<open>turns\<close>; \<open>results\<close> is the script's shared array.\<close>

fun strategy1 :: "element list \<Rightarrow> message list \<Rightarrow> message list" where
  "strategy1 [] results = results"
| "strategy1 (turn # rest) results =
     (let tag = toLowerCase (tagName turn);
          isUser = (tag = js ''user-query'' \<or> js ''user-turn'' \<in> set (classList turn)
                    \<or> hasUserDescendant turn)
      in case trimmedText (innerText turn) of
           None \<Rightarrow> strategy1 rest results
         | Some text \<Rightarrow>
             if text \<noteq> [] \<and> length text > 1
             then strategy1 rest
                    (results @ [\<lparr>role = (if isUser then js ''User'' else js ''Gemini''),
                                 content = text\<rparr>])
             else strategy1 rest results)"

text \<open>
  Strategy 2. \<open>allTurns\<close> holds the query elements, then the response elements, each
  with its role, its trimmed text and its vertical position. \<open>Array.prototype.sort\<close>
  is stable, and the comparator \<open>a.y - b.y\<close> is negative, zero or positive as \<open>a.y\<close>
  is below, equal to or above \<open>b.y\<close>: the sort is the stable ascending sort by \<open>y\<close>.
\<close>

record tagged_turn =
  turn_role :: jsstring
  turn_content :: "jsstring option"
  turn_y :: real

definition allTurns :: "element list \<Rightarrow> element list \<Rightarrow> tagged_turn list" where
  "allTurns queryEls responseEls =
     map (\<lambda>el. \<lparr>turn_role = js ''User'', turn_content = trimmedText (innerText el),
                 turn_y = rectTop el\<rparr>) queryEls
     @ map (\<lambda>el. \<lparr>turn_role = js ''Gemini'', turn_content = trimmedText (innerText el),
                   turn_y = rectTop el\<rparr>) responseEls"

definition hasContent :: "tagged_turn \<Rightarrow> bool" where
  "hasContent t = (case turn_content t of None \<Rightarrow> False | Some c \<Rightarrow> c \<noteq> [] \<and> length c > 1)"

text \<open>The projection to \<open>{role, content}\<close>; it only meets turns that passed the filter,
  whose content is a string.\<close>

definition toMessage :: "tagged_turn \<Rightarrow> message" where
  "toMessage t = \<lparr>role = turn_role t,
                  content = (case turn_content t of Some c \<Rightarrow> c | None \<Rightarrow> [])\<rparr>"

definition strategy2 :: "element list \<Rightarrow> element list \<Rightarrow> message list" where
  "strategy2 queryEls responseEls =
     map toMessage (filter hasContent (sort_key turn_y (allTurns queryEls responseEls)))"

text \<open>Strategy 3, the loop over the elements with an author-role attribute.\<close>

fun strategy3 :: "element list \<Rightarrow> message list \<Rightarrow> message list" where
  "strategy3 [] results = results"
| "strategy3 (el # rest) results =
     (case trimmedText (innerText el) of
        None \<Rightarrow> strategy3 rest results
      | Some text \<Rightarrow>
          if text \<noteq> []
          then strategy3 rest
                 (results @ [\<lparr>role = (if authorRole el = Some (js ''user'')
                                        then js ''User'' else js ''Gemini''),
                              content = text\<rparr>])
          else strategy3 rest results)"

text \<open>Strategy 4, the loop over the container's children.\<close>

fun strategy4 :: "element list \<Rightarrow> message list \<Rightarrow> message list" where
  "strategy4 [] results = results"
| "strategy4 (el # rest) results =
     (case trimmedText (innerText el) of
        None \<Rightarrow> strategy4 rest results
      | Some text \<Rightarrow>
          if text = [] \<or> length text < 2 then strategy4 rest results
          else (let cls = className el @ js '' '' @ tagName el;
                    isUser = testHumanPattern cls
                in strategy4 rest
                     (results @ [\<lparr>role = (if isUser then js ''User'' else js ''Gemini''),
                                  content = text\<rparr>])))"

text \<open>
  \<open>document.querySelector('.conversation-container') || document.querySelector(
  '[class*="conversation"]') || document.querySelector('main')\<close>: a later selector is
  asked only when the earlier ones found nothing.
\<close>

definition findContainer :: "page \<Rightarrow> dom_call list \<Rightarrow> container option \<times> dom_call list" where
  "findContainer p calls =
     (let (c1, calls1) = querySelector p SelConversationContainer calls in
      if c1 \<noteq> None then (c1, calls1)
      else let (c2, calls2) = querySelector p SelConversationClass calls1 in
        if c2 \<noteq> None then (c2, calls2)
        else querySelector p SelMain calls2)"

text \<open>The whole script: the messages it returns and the DOM calls it has made.\<close>

definition extractScript :: "page \<Rightarrow> message list \<times> dom_call list" where
  "extractScript p =
     (let results = [];
          (turns, calls1) = querySelectorAll p SelTurns [];
          results1 = (if turns \<noteq> [] then strategy1 turns results else results)
      in if turns \<noteq> [] \<and> results1 \<noteq> [] then (results1, calls1)
      else
        let (queryEls, calls2) = querySelectorAll p SelQuery calls1;
            (responseEls, calls3) = querySelectorAll p SelResponse calls2;
            cleaned = strategy2 queryEls responseEls
        in if (queryEls \<noteq> [] \<or> responseEls \<noteq> []) \<and> cleaned \<noteq> [] then (cleaned, calls3)
        else
          let (dataEls, calls4) = querySelectorAll p SelAuthorRole calls3;
              results3 = (if dataEls \<noteq> [] then strategy3 dataEls results1 else results1)
          in if dataEls \<noteq> [] \<and> results3 \<noteq> [] then (results3, calls4)
          else
            let (found, calls5) = findContainer p calls4
            in case found of
                 None \<Rightarrow> (results3, calls5)
               | Some c \<Rightarrow>
                   let results4 = strategy4 (children c) results3
                   in if results4 \<noteq> [] then (results4, calls5)
                   else (case trimmedText (containerText c) of
                           None \<Rightarrow> (results4, calls5)
                         | Some text \<Rightarrow>
                             if text \<noteq> []
                             then ([\<lparr>role = js ''Unknown'', content = text\<rparr>], calls5)
                             else (results4, calls5)))"

definition messageValue :: "message \<Rightarrow> jsvalue" where
  "messageValue m = VObject [(js ''role'', VString (role m)), (js ''content'', VString (content m))]"

text \<open>The string the script evaluates to: \<open>JSON.stringify\<close> of the returned array.\<close>

definition messagesScript :: "page \<Rightarrow> jsstring" where
  "messagesScript p = JSON_stringify (VArray (map messageValue (fst (extractScript p)))) 0"

text \<open>
  \<open>extractMessages\<close> (gemini.mjs, lines 249-253) returns what \<open>JSON.parse\<close> makes of
  the script's result, and the empty array when parsing throws.
\<close>

definition extractMessages :: "(jsstring \<Rightarrow> 'n) \<Rightarrow> execution \<Rightarrow> js_error + 'n json" where
  "extractMessages num ex =
     (let messagesJSON = chromeJS ex
      in case parseOrThrow num messagesJSON of
           Inl e \<Rightarrow> Inr (JArray [])
         | Inr parsed \<Rightarrow> Inr parsed)"

definition extractMessagesOn :: "(jsstring \<Rightarrow> 'n) \<Rightarrow> bridge \<Rightarrow> page \<Rightarrow> js_error + 'n json" where
  "extractMessagesOn num b p = extractMessages num (execSync b (messagesScript p))"

section \<open>The JSON formatter\<close>

text \<open>
  \<open>formatAsJSON\<close> (formatter.mjs, lines 32-45). \<open>now\<close> is the string
  \<open>new Date().toISOString()\<close> gives when the function runs. \<open>m.content\<close> is truthy
  when the string is not empty. A message may have more fields than \<open>role\<close> and
  \<open>content\<close>; they are not copied.
\<close>

definition formatAsJSON ::
  "jsstring \<Rightarrow> jsstring \<Rightarrow> jsstring \<Rightarrow> 'a message_scheme list \<Rightarrow> jsstring" where
  "formatAsJSON now title url messages =
     JSON_stringify
       (VObject
          [(js ''title'', VString title),
           (js ''url'', VString url),
           (js ''exportedAt'', VString now),
           (js ''messages'',
              VArray (map (\<lambda>m. VObject [(js ''role'', VString (role m)),
                                          (js ''content'', VString (content m))])
                          (filter (\<lambda>m. content m \<noteq> []) messages)))])
       2"

chapter \<open>Notions used in the properties\<close>

section \<open>JSON values\<close>

text \<open>The value \<open>JSON.parse\<close> is to return for the text of a serialised value.\<close>

fun asJSON :: "jsvalue \<Rightarrow> 'n json" where
  "asJSON (VString s) = JString s"
| "asJSON (VArray vs) = JArray (map asJSON vs)"
| "asJSON (VObject ms) = JObject (map (\<lambda>m. (fst m, asJSON (snd m))) ms)"

text \<open>The property names of an object are distinct.\<close>

fun distinctKeys :: "jsvalue \<Rightarrow> bool" where
  "distinctKeys (VString s) = True"
| "distinctKeys (VArray vs) = list_all distinctKeys vs"
| "distinctKeys (VObject ms) =
     (distinct (map fst ms) \<and> list_all (\<lambda>m. distinctKeys (snd m)) ms)"

text \<open>A number of parser calls that is enough for the text of a value.\<close>

fun need :: "jsvalue \<Rightarrow> nat" where
  "need (VString s) = 1"
| "need (VArray vs) = Suc (sum_list (map (\<lambda>v. Suc (need v)) vs))"
| "need (VObject ms) = Suc (sum_list (map (\<lambda>m. Suc (need (snd m))) ms))"

definition wsOnly :: "jsstring \<Rightarrow> bool" where
  "wsOnly w = list_all isJSONWhiteSpace w"

text \<open>
  A bound on the calls of the parser is adequate when a parse that succeeds with it
  consumes input, and succeeds with the same result under every bound of at least twice
  the number of code units consumed.
\<close>

definition adequateV :: "(jsstring \<Rightarrow> 'n) \<Rightarrow> nat \<Rightarrow> bool" where
  "adequateV num n = (\<forall>s v r. parseValue num n s = Some (v, r) \<longrightarrow>
      length r < length s \<and>
      (\<forall>m. 2 * (length s - length r) \<le> m + 1 \<longrightarrow> parseValue num m s = Some (v, r)))"

definition adequateE :: "(jsstring \<Rightarrow> 'n) \<Rightarrow> nat \<Rightarrow> bool" where
  "adequateE num n = (\<forall>acc s vs r. parseElements num n acc s = Some (vs, r) \<longrightarrow>
      length r < length s \<and>
      (\<forall>m. 2 * (length s - length r) \<le> m \<longrightarrow> parseElements num m acc s = Some (vs, r)))"

definition adequateM :: "(jsstring \<Rightarrow> 'n) \<Rightarrow> nat \<Rightarrow> bool" where
  "adequateM num n = (\<forall>acc s ms r. parseMembers num n acc s = Some (ms, r) \<longrightarrow>
      length r < length s \<and>
      (\<forall>m. 2 * (length s - length r) \<le> m \<longrightarrow> parseMembers num m acc s = Some (ms, r)))"

definition linkJSON :: "link \<Rightarrow> 'n json" where
  "linkJSON l = JObject [(js ''href'', JString (href l)), (js ''text'', JString (linkText l))]"

definition messageJSON :: "'a message_scheme \<Rightarrow> 'n json" where
  "messageJSON m = JObject [(js ''role'', JString (role m)), (js ''content'', JString (content m))]"

section \<open>The scroll loop\<close>

text \<open>
  A round is stable when its two reads agree: \<open>countAfter === countBefore\<close>. The
  loop compares nothing else; the second read of a round and the first read of the next
  round are never compared.
\<close>

definition roundStable :: "(nat \<Rightarrow> jsstring) \<Rightarrow> nat \<Rightarrow> bool" where
  "roundStable reads i = (reads (2 * i + 1) = reads (2 * i))"

text \<open>\<open>fiveStableRounds reads r\<close>: the five rounds up to round \<open>r\<close> (rounds \<open>r - 5\<close>
  to \<open>r - 1\<close>, counted from 0) were all stable.\<close>

definition fiveStableRounds :: "(nat \<Rightarrow> jsstring) \<Rightarrow> nat \<Rightarrow> bool" where
  "fiveStableRounds reads r = (5 \<le> r \<and> (\<forall>j \<in> {r - 5 ..< r}. roundStable reads j))"

text \<open>
  A sequence of counts as the reads themselves: the \<open>k\<close>-th count query returns the
  \<open>k\<close>-th element, and the last element again once the sequence is used up.
\<close>

definition count_at :: "jsstring list \<Rightarrow> nat \<Rightarrow> jsstring" where
  "count_at cs k = (if k < length cs then cs ! k else last cs)"

definition synthetic_counts :: "jsstring list" where
  "synthetic_counts =
     [js ''3'', js ''5'', js ''5'', js ''7'', js ''7'', js ''7'', js ''7'', js ''7'', js ''7'']"

text \<open>A count that is read twice and has changed whenever it is read again.\<close>

definition risingCounts :: "jsstring list" where
  "risingCounts =
     [js ''7'', js ''7'', js ''8'', js ''8'', js ''9'', js ''9'', js ''10'', js ''10'',
      js ''11'', js ''11'']"

text \<open>\<open>sameCount reads k n\<close>: the \<open>n\<close> consecutive reads from read \<open>k\<close> on return the
  same count.\<close>

definition sameCount :: "(nat \<Rightarrow> jsstring) \<Rightarrow> nat \<Rightarrow> nat \<Rightarrow> bool" where
  "sameCount reads k n = list_all (\<lambda>j. reads j = reads k) [k ..< k + n]"

text \<open>What holds when the loop is left, in terms of the rounds.\<close>

definition loop_post :: "(nat \<Rightarrow> jsstring) \<Rightarrow> loop_exit \<Rightarrow> bool" where
  "loop_post reads out =
    (rounds out \<le> 100 \<and>
     (broke out \<longrightarrow> fiveStableRounds reads (rounds out) \<and> stable_count out = 5) \<and>
     (\<not> broke out \<longrightarrow> rounds out = 100 \<and> \<not> fiveStableRounds reads 100) \<and>
     (\<forall>r < rounds out. \<not> fiveStableRounds reads r))"

section \<open>Discovery\<close>

text \<open>
  Deduplication by address, first seen first: a link is kept, and every later link with
  its address is dropped.
\<close>

fun firstSeen :: "link list \<Rightarrow> link list" where
  "firstSeen [] = []"
| "firstSeen (l # ls) = l # firstSeen (filter (\<lambda>x. href x \<noteq> href l) ls)"

text \<open>The loop of \<open>filter\<close> on links, with the addresses seen so far.\<close>

fun dropSeen :: "link list \<Rightarrow> jsstring list \<Rightarrow> link list" where
  "dropSeen [] seen = []"
| "dropSeen (l # ls) seen =
     (if href l \<in> set seen then dropSeen ls seen else l # dropSeen ls (seen @ [href l]))"

text \<open>The addresses the spec excludes: the application root of the provider
  (\<open>url\<close> in gemini.mjs), with or without a slash at its end, and the four fragments.\<close>

definition appRoot :: jsstring where
  "appRoot = js ''https://gemini.google.com/app''"

definition excludedFragments :: "jsstring list" where
  "excludedFragments =
     [js ''/download'', js ''/settings'', js ''/extensions'', js ''accounts.google.com'']"

definition excluded :: "jsstring \<Rightarrow> bool" where
  "excluded address =
     (address = appRoot \<or> address = appRoot @ js ''/''
      \<or> list_ex (\<lambda>fragment. str_includes address fragment) excludedFragments)"

section \<open>Extraction\<close>

text \<open>What the loop of a strategy pushes for one element.\<close>

definition pushed1 :: "element \<Rightarrow> message list" where
  "pushed1 turn =
     (case trimmedText (innerText turn) of
        None \<Rightarrow> []
      | Some text \<Rightarrow>
          if text \<noteq> [] \<and> length text > 1
          then [\<lparr>role = (if toLowerCase (tagName turn) = js ''user-query''
                              \<or> js ''user-turn'' \<in> set (classList turn)
                              \<or> hasUserDescendant turn
                           then js ''User'' else js ''Gemini''),
                  content = text\<rparr>]
          else [])"

definition pushed3 :: "element \<Rightarrow> message list" where
  "pushed3 el =
     (case trimmedText (innerText el) of
        None \<Rightarrow> []
      | Some text \<Rightarrow>
          if text \<noteq> []
          then [\<lparr>role = (if authorRole el = Some (js ''user'') then js ''User'' else js ''Gemini''),
                  content = text\<rparr>]
          else [])"

definition pushed4 :: "element \<Rightarrow> message list" where
  "pushed4 el =
     (case trimmedText (innerText el) of
        None \<Rightarrow> []
      | Some text \<Rightarrow>
          if text = [] \<or> length text < 2 then []
          else [\<lparr>role = (if testHumanPattern (className el @ js '' '' @ tagName el)
                           then js ''User'' else js ''Gemini''),
                  content = text\<rparr>])"

text \<open>A message with a role of a turn and a content that is trimmed and not empty.\<close>

definition wellFormed :: "message \<Rightarrow> bool" where
  "wellFormed m = ((role m = js ''User'' \<or> role m = js ''Gemini'')
      \<and> content m \<noteq> [] \<and> trim (content m) = content m)"

text \<open>
  The four strategies as the spec describes them, each on its own: what it yields on a
  page, and the DOM calls it makes.
\<close>

definition turnStrategy :: "page \<Rightarrow> message list" where
  "turnStrategy p = strategy1 (matching p SelTurns) []"

definition pairedStrategy :: "page \<Rightarrow> message list" where
  "pairedStrategy p = strategy2 (matching p SelQuery) (matching p SelResponse)"

definition roleStrategy :: "page \<Rightarrow> message list" where
  "roleStrategy p = strategy3 (matching p SelAuthorRole) []"

definition conversationContainer :: "page \<Rightarrow> container option" where
  "conversationContainer p =
     (case firstMatching p SelConversationContainer of
        Some c \<Rightarrow> Some c
      | None \<Rightarrow> (case firstMatching p SelConversationClass of
                   Some c \<Rightarrow> Some c
                 | None \<Rightarrow> firstMatching p SelMain))"

definition containerCalls :: "page \<Rightarrow> dom_call list" where
  "containerCalls p =
     (if firstMatching p SelConversationContainer \<noteq> None
      then [QuerySelector SelConversationContainer]
      else if firstMatching p SelConversationClass \<noteq> None
      then [QuerySelector SelConversationContainer, QuerySelector SelConversationClass]
      else [QuerySelector SelConversationContainer, QuerySelector SelConversationClass,
            QuerySelector SelMain])"

definition lastResort :: "container \<Rightarrow> message list" where
  "lastResort c =
     (case trimmedText (containerText c) of
        None \<Rightarrow> []
      | Some text \<Rightarrow> if text \<noteq> [] then [\<lparr>role = js ''Unknown'', content = text\<rparr>] else [])"

definition fallbackStrategy :: "page \<Rightarrow> message list" where
  "fallbackStrategy p =
     (case conversationContainer p of
        None \<Rightarrow> []
      | Some c \<Rightarrow> if strategy4 (children c) [] \<noteq> [] then strategy4 (children c) []
                  else lastResort c)"

text \<open>
  The cascade of the spec: the strategies are run in the given order, the first that
  yields a message wins, and the strategies after it are not run.
\<close>

fun firstNonEmpty ::
  "(message list \<times> dom_call list) list \<Rightarrow> dom_call list \<Rightarrow> message list \<times> dom_call list" where
  "firstNonEmpty [] calls = ([], calls)"
| "firstNonEmpty ((r, cs) # rest) calls =
     (if r \<noteq> [] then (r, calls @ cs) else firstNonEmpty rest (calls @ cs))"

definition cascade :: "page \<Rightarrow> message list \<times> dom_call list" where
  "cascade p =
     firstNonEmpty
       [(turnStrategy p, [QuerySelectorAll SelTurns]),
        (pairedStrategy p, [QuerySelectorAll SelQuery, QuerySelectorAll SelResponse]),
        (roleStrategy p, [QuerySelectorAll SelAuthorRole]),
        (fallbackStrategy p, containerCalls p)] []"

section \<open>Example inputs\<close>

text \<open>An HTML element with a tag name, a class, an author-role attribute, a rendered text
  and a vertical position.\<close>

definition htmlElement ::
  "string \<Rightarrow> string \<Rightarrow> string option \<Rightarrow> string \<Rightarrow> real \<Rightarrow> element" where
  "htmlElement tag cls author rendered pos =
     \<lparr>tagName = js tag, className = js cls,
      classList = (if cls = [] then [] else [js cls]),
      hasUserDescendant = False, authorRole = map_option js author,
      innerText = Some (js rendered), rectTop = pos\<rparr>"

text \<open>
  A page that matches every strategy at once: two turn elements, which the selectors of
  Strategy 2 match as well, an element with an author role, and a conversation
  container.
\<close>

definition mixedPage :: page where
  "mixedPage =
     \<lparr>matching = (\<lambda>sel. case sel of
          SelTurns \<Rightarrow> [htmlElement ''USER-QUERY'' [] None ''Hi there'' 10,
                       htmlElement ''MODEL-RESPONSE'' [] None ''Hello!'' 20]
        | SelQuery \<Rightarrow> [htmlElement ''USER-QUERY'' [] None ''Hi there'' 10]
        | SelResponse \<Rightarrow> [htmlElement ''MODEL-RESPONSE'' [] None ''Hello!'' 20]
        | SelAuthorRole \<Rightarrow> [htmlElement ''DIV'' [] (Some ''user'') ''From the attribute'' 30]),
      firstMatching = (\<lambda>sel. case sel of
          SelMain \<Rightarrow> Some \<lparr>children = [htmlElement ''DIV'' ''prompt'' None ''A child'' 0],
                           containerText = Some (js ''All the text'')\<rparr>
        | _ \<Rightarrow> None)\<rparr>"

text \<open>
  A page whose only message is the single character \<open>x\<close>, in an element that every
  strategy gets to see: it is a \<open>user-query\<close> element with an author role, and the only
  child of the conversation container.
\<close>

definition singleCharElement :: element where
  "singleCharElement = htmlElement ''USER-QUERY'' [] (Some ''user'') ''x'' 0"

definition singleCharPage :: page where
  "singleCharPage =
     \<lparr>matching = (\<lambda>sel. case sel of
          SelTurns \<Rightarrow> [singleCharElement]
        | SelQuery \<Rightarrow> [singleCharElement]
        | SelResponse \<Rightarrow> []
        | SelAuthorRole \<Rightarrow> [singleCharElement]),
      firstMatching = (\<lambda>sel. case sel of
          SelConversationContainer \<Rightarrow>
            Some \<lparr>children = [singleCharElement], containerText = Some (js ''x'')\<rparr>
        | _ \<Rightarrow> None)\<rparr>"

text \<open>A page with nothing but a \<open>main\<close> element that has text and no element children.\<close>

definition rawTextPage :: page where
  "rawTextPage =
     \<lparr>matching = (\<lambda>sel. []),
      firstMatching = (\<lambda>sel. case sel of
          SelMain \<Rightarrow> Some \<lparr>children = [], containerText = Some (js '' All the text '')\<rparr>
        | _ \<Rightarrow> None)\<rparr>"

text \<open>A query region below a response region.\<close>

definition lowQuery :: element where
  "lowQuery = htmlElement ''DIV'' ''query-text'' None ''Why?'' 100"

definition highResponse :: element where
  "highResponse = htmlElement ''DIV'' ''response-container'' None ''Because.'' 50"

text \<open>Anchors of a sidebar: the application root, a chat listed twice, the settings
  page and a second chat.\<close>

definition sidebar :: "anchor list" where
  "sidebar =
     [\<lparr>anchorHref = js ''https://gemini.google.com/app/'', textContent = js ''Gemini''\<rparr>,
      \<lparr>anchorHref = js ''https://gemini.google.com/app/c1'', textContent = js '' First chat ''\<rparr>,
      \<lparr>anchorHref = js ''https://gemini.google.com/app/settings'', textContent = js ''Settings''\<rparr>,
      \<lparr>anchorHref = js ''https://gemini.google.com/app/c2'', textContent = js ''Second chat''\<rparr>,
      \<lparr>anchorHref = js ''https://gemini.google.com/app/c1'', textContent = js ''First chat again''\<rparr>]"

text \<open>Links as the page script may read them, two addresses repeated.\<close>

definition rawLinks :: "link list" where
  "rawLinks =
     [\<lparr>href = js ''/app/c1'', linkText = js ''one''\<rparr>,
      \<lparr>href = js ''/app/c2'', linkText = js ''two''\<rparr>,
      \<lparr>href = js ''/app/c1'', linkText = js ''one again''\<rparr>,
      \<lparr>href = js ''/app/c3'', linkText = js ''three''\<rparr>,
      \<lparr>href = js ''/app/c2'', linkText = js ''two again''\<rparr>]"

text \<open>Messages with a field of their own besides \<open>role\<close> and \<open>content\<close>; the second
  has no content.\<close>

definition exampleMessages :: "nat message_scheme list" where
  "exampleMessages =
     [\<lparr>role = js ''User'', content = js ''Hi'', \<dots> = 1\<rparr>,
      \<lparr>role = js ''Gemini'', content = [], \<dots> = 2\<rparr>,
      \<lparr>role = js ''Gemini'', content = js ''Hello!'', \<dots> = 3\<rparr>]"

chapter \<open>Properties\<close>

section \<open>Strings\<close>

lemma dropWhile_fix: "xs = [] \<or> \<not> P (hd xs) \<Longrightarrow> dropWhile P xs = xs"
  by (cases xs) auto

lemma trim_idem: "trim (trim s) = trim s"
proof -
  define a where "a = dropWhile isWhiteSpace s"
  define b where "b = dropWhile isWhiteSpace (rev a)"
  have tb: "trim s = rev b" by (simp add: trim_def a_def b_def)
  have "dropWhile isWhiteSpace (rev b) = rev b"
  proof (cases "b = []")
    case True then show ?thesis by simp
  next
    case False
    have "suffix b (rev a)" unfolding b_def by (rule suffix_dropWhile)
    then obtain c where c: "rev a = c @ b" by (auto simp: suffix_def)
    then have a: "a = rev b @ rev c" by (metis rev_append rev_rev_ident)
    with False have "hd (rev b) = hd a" by simp
    moreover have "a \<noteq> []" using a False by simp
    then have "\<not> isWhiteSpace (hd a)" unfolding a_def by (rule hd_dropWhile)
    ultimately show ?thesis by (intro dropWhile_fix) simp
  qed
  moreover have "dropWhile isWhiteSpace b = b" unfolding b_def by simp
  ultimately show ?thesis unfolding tb by (simp add: trim_def)
qed

section \<open>Extraction: the strategies and the cascade\<close>

lemma strategy1_pushed: "strategy1 els results = results @ concat (map pushed1 els)"
  by (induction els arbitrary: results)
     (simp_all add: pushed1_def Let_def split: option.split)

lemma strategy3_pushed: "strategy3 els results = results @ concat (map pushed3 els)"
  by (induction els arbitrary: results)
     (simp_all add: pushed3_def Let_def split: option.split)

lemma strategy4_pushed: "strategy4 els results = results @ concat (map pushed4 els)"
  by (induction els arbitrary: results)
     (simp_all add: pushed4_def Let_def split: option.split)

lemma trimmed_wf: "trimmedText t = Some c \<Longrightarrow> trim c = c"
  by (auto simp: trimmedText_def trim_idem)

lemma pushed1_wf: "m \<in> set (pushed1 e) \<Longrightarrow> wellFormed m \<and> length (content m) > 1"
  by (auto simp: pushed1_def wellFormed_def trimmed_wf split: option.splits if_splits)

lemma pushed3_wf: "m \<in> set (pushed3 e) \<Longrightarrow> wellFormed m"
  by (auto simp: pushed3_def wellFormed_def trimmed_wf split: option.splits if_splits)

lemma pushed4_wf: "m \<in> set (pushed4 e) \<Longrightarrow> wellFormed m \<and> length (content m) > 1"
  by (auto simp: pushed4_def wellFormed_def trimmed_wf split: option.splits if_splits)

lemma strategy1_wf: "m \<in> set (strategy1 els []) \<Longrightarrow> wellFormed m \<and> length (content m) > 1"
  by (auto simp: strategy1_pushed dest: pushed1_wf)

lemma strategy3_wf: "m \<in> set (strategy3 els []) \<Longrightarrow> wellFormed m"
  by (auto simp: strategy3_pushed dest: pushed3_wf)

lemma strategy4_wf: "m \<in> set (strategy4 els []) \<Longrightarrow> wellFormed m \<and> length (content m) > 1"
  by (auto simp: strategy4_pushed dest: pushed4_wf)

lemma allTurns_roles:
  "t \<in> set (allTurns qs rs) \<Longrightarrow>
     (turn_role t = js ''User'' \<or> turn_role t = js ''Gemini'')
     \<and> (\<forall>c. turn_content t = Some c \<longrightarrow> trim c = c)"
  by (auto simp: allTurns_def trimmed_wf)

lemma strategy2_wf: "m \<in> set (strategy2 qs rs) \<Longrightarrow> wellFormed m \<and> length (content m) > 1"
  by (auto simp: strategy2_def toMessage_def hasContent_def wellFormed_def
           dest!: allTurns_roles split: option.splits)


lemma findContainer_eq:
  "findContainer p calls = (conversationContainer p, calls @ containerCalls p)"
  by (auto simp: findContainer_def querySelector_def conversationContainer_def
        containerCalls_def split: option.splits)

lemma strategy2_Nil: "strategy2 [] [] = []"
  by (simp add: strategy2_def allTurns_def)

lemma extractScript_cascade: "extractScript p = cascade p"
proof (cases "turnStrategy p = []")
  case False
  then have ne: "matching p SelTurns \<noteq> []" by (auto simp: turnStrategy_def)
  show ?thesis using False ne
    by (simp add: extractScript_def cascade_def querySelectorAll_def turnStrategy_def)
next
  case s1: True
  then have r1: "(if matching p SelTurns \<noteq> [] then strategy1 (matching p SelTurns) [] else []) = []"
    by (simp add: turnStrategy_def)
  show ?thesis
  proof (cases "pairedStrategy p = []")
    case False
    then have ne: "matching p SelQuery \<noteq> [] \<or> matching p SelResponse \<noteq> []"
      by (auto simp: pairedStrategy_def strategy2_Nil)
    show ?thesis using s1 r1 False ne
      by (simp add: extractScript_def cascade_def querySelectorAll_def
            pairedStrategy_def)
  next
    case s2: True
    show ?thesis
    proof (cases "roleStrategy p = []")
      case False
      then have ne: "matching p SelAuthorRole \<noteq> []" by (auto simp: roleStrategy_def)
      show ?thesis using s1 r1 s2 False ne
        by (simp add: extractScript_def cascade_def querySelectorAll_def
              pairedStrategy_def roleStrategy_def)
    next
      case s3: True
      then have r3: "(if matching p SelAuthorRole \<noteq> [] then strategy3 (matching p SelAuthorRole) [] else []) = []"
        by (simp add: roleStrategy_def)
      have e1: "strategy1 (matching p SelTurns) [] = []"
        using s1 by (simp add: turnStrategy_def)
      have e2: "strategy2 (matching p SelQuery) (matching p SelResponse) = []"
        using s2 by (simp add: pairedStrategy_def)
      have e3: "strategy3 (matching p SelAuthorRole) [] = []"
        using s3 by (simp add: roleStrategy_def)
      show ?thesis
        by (simp add: extractScript_def cascade_def querySelectorAll_def e1 e2 e3
              turnStrategy_def pairedStrategy_def roleStrategy_def
              findContainer_eq fallbackStrategy_def lastResort_def Let_def
            split: option.split)
    qed
  qed
qed

section \<open>JSON: parsing a serialised value gives the value back\<close>

lemma unhex_hex_all: "\<forall>d \<in> set [0..<16]. unhexDigit (hexDigit d) = Some d"
  by code_simp

lemma unhex_hex: "d < 16 \<Longrightarrow> unhexDigit (hexDigit d) = Some d"
  using unhex_hex_all by simp

lemma horner4:
  "q1 * 16 + r0 = (n::nat) \<Longrightarrow> q2 * 16 + r1 = q1 \<Longrightarrow> q3 * 16 + r2 = q2 \<Longrightarrow>
   ((q3 * 16 + r2) * 16 + r1) * 16 + r0 = n"
  by simp

lemma hex4_value:
  "(((n div 4096) * 16 + n div 256 mod 16) * 16 + n div 16 mod 16) * 16 + n mod 16 = (n::nat)"
proof -
  have e1: "n div 16 div 16 = n div 256" using div_mult2_eq [of n 16 16] by simp
  have e2: "n div 256 div 16 = n div 4096" using div_mult2_eq [of n 256 16] by simp
  have a: "(n div 16) * 16 + n mod 16 = n" by (rule div_mult_mod_eq)
  have b: "(n div 256) * 16 + n div 16 mod 16 = n div 16"
    using div_mult_mod_eq [of "n div 16" 16] unfolding e1 .
  have c: "(n div 4096) * 16 + n div 256 mod 16 = n div 256"
    using div_mult_mod_eq [of "n div 256" 16] unfolding e2 .
  show ?thesis by (rule horner4 [OF a b c])
qed

lemma unhex4_digits:
  "a < 16 \<Longrightarrow> b < 16 \<Longrightarrow> c < 16 \<Longrightarrow> d < 16 \<Longrightarrow>
   unhex4 [hexDigit a, hexDigit b, hexDigit c, hexDigit d] =
     Some (of_nat (((a * 16 + b) * 16 + c) * 16 + d))"
  by (simp add: unhex4_def unhex_hex)

lemma unhex4_escape: "unhex4 (drop 2 (UnicodeEscape c)) = Some c"
proof -
  have b: "unat c < 65536" using unsigned_less [of c] by simp
  then have d: "unat c div 4096 < 16" by simp
  have "drop 2 (UnicodeEscape c) =
      [hexDigit (unat c div 4096), hexDigit (unat c div 256 mod 16),
       hexDigit (unat c div 16 mod 16), hexDigit (unat c mod 16)]"
    by (simp add: UnicodeEscape_def)
  then have "unhex4 (drop 2 (UnicodeEscape c)) =
      Some (of_nat ((((unat c div 4096) * 16 + unat c div 256 mod 16) * 16
              + unat c div 16 mod 16) * 16 + unat c mod 16))"
    using d by (simp only: unhex4_digits mod_less_divisor zero_less_numeral)
  also have "\<dots> = Some c" by (subst hex4_value) simp
  finally show ?thesis .
qed


lemma UnicodeEscape_shape:
  "UnicodeEscape c = 0x5C # 0x75 # drop 2 (UnicodeEscape c)"
  "length (drop 2 (UnicodeEscape c)) = 4"
  by (simp_all add: UnicodeEscape_def)

lemma parseChars_escape:
  "parseChars (UnicodeEscape c @ rest) = consUnit c (parseChars rest)"
proof -
  define h where "h = drop 2 (UnicodeEscape c)"
  have len: "length h = 4" unfolding h_def by (rule UnicodeEscape_shape(2))
  have un: "unhex4 h = Some c" unfolding h_def by (rule unhex4_escape)
  have "UnicodeEscape c = 0x5C # 0x75 # h"
    unfolding h_def by (rule UnicodeEscape_shape(1))
  then show ?thesis using len un by simp
qed

lemma parseChars_quoteUnit:
  "parseChars (quoteUnit c @ rest) = consUnit c (parseChars rest)"
proof (cases "c = 0x08 \<or> c = 0x09 \<or> c = 0x0A \<or> c = 0x0C \<or> c = 0x0D \<or> c = 0x22 \<or> c = 0x5C")
  case True
  then show ?thesis by (auto simp: quoteUnit_def unescape_def)
next
  case plain: False
  show ?thesis
  proof (cases "c < 0x20 \<or> isLeadSurrogate c \<or> isTrailSurrogate c")
    case True
    with plain have "quoteUnit c = UnicodeEscape c" by (simp add: quoteUnit_def)
    then show ?thesis by (simp add: parseChars_escape)
  next
    case False
    with plain have "quoteUnit c = [c]" by (simp add: quoteUnit_def)
    then show ?thesis using plain False by simp
  qed
qed

lemma surrogate_literal:
  "isLeadSurrogate c \<or> isTrailSurrogate c \<Longrightarrow> c \<noteq> 0x22 \<and> c \<noteq> 0x5C \<and> \<not> c < 0x20"
  by (auto simp: isLeadSurrogate_def isTrailSurrogate_def word_le_nat_alt word_less_nat_alt)

lemma parseChars_literal:
  "c \<noteq> 0x22 \<Longrightarrow> c \<noteq> 0x5C \<Longrightarrow> \<not> c < 0x20 \<Longrightarrow>
   parseChars (c # rest) = consUnit c (parseChars rest)"
  by simp

lemma parseChars_quoteUnits:
  "parseChars (quoteUnits s @ 0x22 # rest) = Some (s, rest)"
proof (induction s rule: quoteUnits.induct)
  case 1
  show ?case by simp
next
  case (2 c)
  show ?case by (simp add: parseChars_quoteUnit consUnit_def)
next
  case (3 c d cs)
  show ?case
  proof (cases "isLeadSurrogate c \<and> isTrailSurrogate d")
    case True
    have ih: "parseChars (quoteUnits cs @ 0x22 # rest) = Some (cs, rest)"
      using 3(1) True by simp
    have q: "quoteUnits (c # d # cs) @ 0x22 # rest = c # d # (quoteUnits cs @ 0x22 # rest)"
      using True by simp
    have lc: "parseChars (c # d # (quoteUnits cs @ 0x22 # rest)) =
        consUnit c (parseChars (d # (quoteUnits cs @ 0x22 # rest)))"
      using surrogate_literal [of c] True by (intro parseChars_literal) auto
    have ld: "parseChars (d # (quoteUnits cs @ 0x22 # rest)) =
        consUnit d (parseChars (quoteUnits cs @ 0x22 # rest))"
      using surrogate_literal [of d] True by (intro parseChars_literal) auto
    show ?thesis unfolding q lc ld ih by (simp add: consUnit_def)
  next
    case False
    have ih: "parseChars (quoteUnits (d # cs) @ 0x22 # rest) = Some (d # cs, rest)"
      using 3(2) False by simp
    have q: "quoteUnits (c # d # cs) @ 0x22 # rest =
        quoteUnit c @ (quoteUnits (d # cs) @ 0x22 # rest)"
      using False by auto
    show ?thesis unfolding q parseChars_quoteUnit ih by (simp add: consUnit_def)
  qed
qed

lemma parse_QuoteJSONString:
  "parseChars (tl (QuoteJSONString s) @ rest) = Some (s, rest)"
  "hd (QuoteJSONString s) = 0x22"
  by (simp_all add: QuoteJSONString_def parseChars_quoteUnits)


lemma skipWS_ws: "wsOnly w \<Longrightarrow> skipWS (w @ s) = skipWS s"
  by (induction w) (auto simp: wsOnly_def skipWS_def)

lemma skipWS_start: "\<not> isJSONWhiteSpace c \<Longrightarrow> skipWS (c # s) = c # s"
  by (simp add: skipWS_def)

lemma QuoteJSONString_Cons: "QuoteJSONString s = 0x22 # quoteUnits s @ [0x22]"
  by (simp add: QuoteJSONString_def)

lemma js_single [simp]:
  "js ''['' = [0x5B]" "js '']'' = [0x5D]" "js ''{'' = [0x7B]" "js ''}'' = [0x7D]"
  "js '','' = [0x2C]" "js '':'' = [0x3A]" "js '' '' = [0x20]"
  "js ''[]'' = [0x5B, 0x5D]" "js ''{}'' = [0x7B, 0x7D]"
  by (simp_all add: js_def)

lemma join_Cons: "join sep (x # xs) = x @ (if xs = [] then [] else sep @ join sep xs)"
  by (cases xs) auto

lemma serialize_start:
  "\<exists>c cs. SerializeJSONProperty gap indent v = c # cs \<and> (c = 0x22 \<or> c = 0x5B \<or> c = 0x7B)"
  by (cases v) (auto simp: QuoteJSONString_Cons Let_def)

lemma start_not_ws: "c = 0x22 \<or> c = 0x5B \<or> c = 0x7B \<Longrightarrow> \<not> isJSONWhiteSpace c"
  by (auto simp: isJSONWhiteSpace_def)

lemma parseValue_string:
  "parseValue num (Suc n) (QuoteJSONString s @ rest) = Some (JString s, rest)"
  by (simp add: QuoteJSONString_Cons parseChars_quoteUnits)


lemma elements_roundtrip:
  assumes each: "\<And>v n rest. v \<in> set vs \<Longrightarrow> need v \<le> n \<Longrightarrow>
        parseValue num n (ser v @ rest) = Some (asJSON v, rest)"
    and start: "\<And>v. \<exists>c cs. ser v = c # cs \<and> (c = 0x22 \<or> c = 0x5B \<or> c = 0x7B)"
    and ws: "wsOnly w1" "wsOnly w2"
  shows "vs \<noteq> [] \<Longrightarrow> sum_list (map (\<lambda>v. Suc (need v)) vs) \<le> n \<Longrightarrow>
     parseElements num n acc (join (0x2C # w1) (map ser vs) @ w2 @ 0x5D # rest)
       = Some (acc @ map asJSON vs, rest)"
  using each
proof (induction vs arbitrary: n acc)
  case Nil
  then show ?case by simp
next
  case (Cons v vs)
  from Cons.prems(2) obtain n' where n: "n = Suc n'" "need v \<le> n'"
    "sum_list (map (\<lambda>v. Suc (need v)) vs) \<le> n'"
    by (cases n) auto
  have pv: "\<And>rest. parseValue num n' (ser v @ rest) = Some (asJSON v, rest)"
    using Cons.prems(3) [of v n'] n(2) by simp
  show ?case
  proof (cases "vs = []")
    case True
    have "skipWS (w2 @ 0x5D # rest) = 0x5D # rest"
      using ws(2) by (simp add: skipWS_ws skipWS_start isJSONWhiteSpace_def)
    then show ?thesis using True pv by (simp add: n(1))
  next
    case False
    obtain v' vs' where vs: "vs = v' # vs'" using False by (cases vs) auto
    obtain c0 cs0 where c0: "ser v' = c0 # cs0" "\<not> isJSONWhiteSpace c0"
      using start [of v'] start_not_ws by blast
    have "\<exists>c cs. join (0x2C # w1) (map ser vs) = c # cs \<and> \<not> isJSONWhiteSpace c"
      unfolding vs list.map join_Cons c0(1) using c0(2) by simp
    then obtain c cs where c: "join (0x2C # w1) (map ser vs) = c # cs" "\<not> isJSONWhiteSpace c"
      by blast
    have j: "join (0x2C # w1) (map ser (v # vs)) =
        ser v @ 0x2C # w1 @ join (0x2C # w1) (map ser vs)"
      using False by (simp add: join_Cons)
    have sk: "skipWS (w1 @ join (0x2C # w1) (map ser vs) @ w2 @ 0x5D # rest) =
        join (0x2C # w1) (map ser vs) @ w2 @ 0x5D # rest"
      using ws(1) c by (simp add: skipWS_ws skipWS_start)
    have ih: "parseElements num n' (acc @ [asJSON v])
        (join (0x2C # w1) (map ser vs) @ w2 @ 0x5D # rest)
      = Some ((acc @ [asJSON v]) @ map asJSON vs, rest)"
      using False n(3) Cons.prems(3) by (intro Cons.IH) auto
    show ?thesis
      unfolding j n(1)
      using pv sk ih by (simp add: skipWS_start isJSONWhiteSpace_def)
  qed
qed


lemma putMember_fresh: "k \<notin> fst ` set acc \<Longrightarrow> putMember acc k v = acc @ [(k, v)]"
  by (induction acc) auto

lemma members_roundtrip:
  assumes each: "\<And>m n rest. m \<in> set ms \<Longrightarrow> need (snd m) \<le> n \<Longrightarrow>
        parseValue num n (ser (snd m) @ rest) = Some (asJSON (snd m), rest)"
    and start: "\<And>v. \<exists>c cs. ser v = c # cs \<and> (c = 0x22 \<or> c = 0x5B \<or> c = 0x7B)"
    and ws: "wsOnly w0" "wsOnly w1" "wsOnly w2"
  shows "ms \<noteq> [] \<Longrightarrow> sum_list (map (\<lambda>m. Suc (need (snd m))) ms) \<le> n \<Longrightarrow>
     distinct (map fst acc @ map fst ms) \<Longrightarrow>
     parseMembers num n acc
        (join (0x2C # w1) (map (\<lambda>m. QuoteJSONString (fst m) @ [0x3A] @ w0 @ ser (snd m)) ms)
         @ w2 @ 0x7D # rest)
       = Some (acc @ map (\<lambda>m. (fst m, asJSON (snd m))) ms, rest)"
  using each
proof (induction ms arbitrary: n acc)
  case Nil
  then show ?case by simp
next
  case (Cons m ms)
  let ?mem = "\<lambda>m. QuoteJSONString (fst m) @ [0x3A] @ w0 @ ser (snd m)"
  from Cons.prems(2) obtain n' where n: "n = Suc n'" "need (snd m) \<le> n'"
    "sum_list (map (\<lambda>m. Suc (need (snd m))) ms) \<le> n'"
    by (cases n) auto
  have pv: "\<And>rest. parseValue num n' (ser (snd m) @ rest) = Some (asJSON (snd m), rest)"
    using Cons.prems(4) [of m n'] n(2) by simp
  obtain c cs where c: "ser (snd m) = c # cs" "\<not> isJSONWhiteSpace c"
    using start [of "snd m"] start_not_ws by blast
  have skv: "\<And>rest. skipWS (w0 @ ser (snd m) @ rest) = ser (snd m) @ rest"
    using ws(1) c by (simp add: skipWS_ws skipWS_start)
  have fresh: "fst m \<notin> fst ` set acc" using Cons.prems(3) by auto
  have put: "putMember acc (fst m) (asJSON (snd m) :: 'a json) = acc @ [(fst m, asJSON (snd m))]"
    using fresh by (rule putMember_fresh)
  show ?case
  proof (cases "ms = []")
    case True
    have "skipWS (w2 @ 0x7D # rest) = 0x7D # rest"
      using ws(3) by (simp add: skipWS_ws skipWS_start isJSONWhiteSpace_def)
    then show ?thesis using True pv skv put
      by (simp add: n(1) QuoteJSONString_Cons parseChars_quoteUnits skipWS_start
            isJSONWhiteSpace_def)
  next
    case False
    have j: "join (0x2C # w1) (map ?mem (m # ms)) =
        ?mem m @ 0x2C # w1 @ join (0x2C # w1) (map ?mem ms)"
      using False by (simp add: join_Cons)
    obtain m' ms' where ms: "ms = m' # ms'" using False by (cases ms) auto
    have "\<exists>d ds. join (0x2C # w1) (map ?mem ms) = d # ds \<and> \<not> isJSONWhiteSpace d"
      unfolding ms list.map join_Cons by (simp add: QuoteJSONString_Cons isJSONWhiteSpace_def)
    then obtain d ds where d: "join (0x2C # w1) (map ?mem ms) = d # ds" "\<not> isJSONWhiteSpace d"
      by blast
    have sk: "skipWS (w1 @ join (0x2C # w1) (map ?mem ms) @ w2 @ 0x7D # rest) =
        join (0x2C # w1) (map ?mem ms) @ w2 @ 0x7D # rest"
      using ws(2) d by (simp add: skipWS_ws skipWS_start)
    have dist: "distinct (map fst (acc @ [(fst m, asJSON (snd m) :: 'a json)]) @ map fst ms)"
      using Cons.prems(3) by auto
    have ih: "parseMembers num n' (acc @ [(fst m, asJSON (snd m))])
        (join (0x2C # w1) (map ?mem ms) @ w2 @ 0x7D # rest)
      = Some ((acc @ [(fst m, asJSON (snd m))]) @ map (\<lambda>m. (fst m, asJSON (snd m))) ms, rest)"
      using False n(3) dist Cons.prems(4) by (intro Cons.IH) auto
    show ?thesis
      unfolding j n(1)
      using pv skv put sk ih
      by (simp add: QuoteJSONString_Cons parseChars_quoteUnits skipWS_start
            isJSONWhiteSpace_def)
  qed
qed


lemma wsOnly_simps [simp]:
  "wsOnly []" "wsOnly (0x0A # w) = wsOnly w" "wsOnly (0x20 # w) = wsOnly w"
  "wsOnly (a @ b) = (wsOnly a \<and> wsOnly b)"
  by (simp_all add: wsOnly_def isJSONWhiteSpace_def)

lemma array_roundtrip:
  assumes each: "\<And>v n rest. v \<in> set vs \<Longrightarrow> need v \<le> n \<Longrightarrow>
        parseValue num n (ser v @ rest) = Some (asJSON v, rest)"
    and start: "\<And>v. \<exists>c cs. ser v = c # cs \<and> (c = 0x22 \<or> c = 0x5B \<or> c = 0x7B)"
    and ws: "wsOnly w0" "wsOnly w1" "wsOnly w2"
    and vs: "vs \<noteq> []"
    and n: "sum_list (map (\<lambda>v. Suc (need v)) vs) \<le> n"
  shows "parseValue num (Suc n)
           (0x5B # w0 @ join (0x2C # w1) (map ser vs) @ w2 @ 0x5D # rest)
         = Some (JArray (map asJSON vs), rest)"
proof -
  let ?body = "join (0x2C # w1) (map ser vs) @ w2 @ 0x5D # rest"
  obtain v' vs' where v': "vs = v' # vs'" using vs by (cases vs) auto
  obtain c cs where c: "ser v' = c # cs" "c = 0x22 \<or> c = 0x5B \<or> c = 0x7B"
    using start [of v'] by blast
  have "\<exists>d ds. ?body = d # ds \<and> (d = 0x22 \<or> d = 0x5B \<or> d = 0x7B)"
    unfolding v' list.map join_Cons c(1) using c(2) by simp
  then obtain d ds where d: "?body = d # ds" "d = 0x22 \<or> d = 0x5B \<or> d = 0x7B" by blast
  have sk: "skipWS (w0 @ ?body) = d # ds"
    using ws(1) d start_not_ws [of d] by (simp add: skipWS_ws skipWS_start del: append_assoc)
  have el: "parseElements num n [] (d # ds) = Some ([] @ map asJSON vs, rest)"
    unfolding d(1) [symmetric]
    by (rule elements_roundtrip [OF each start ws(2,3) vs n])
  have "d \<noteq> 0x5D" using d(2) by auto
  then show ?thesis using sk el by simp
qed

lemma object_roundtrip:
  assumes each: "\<And>m n rest. m \<in> set ms \<Longrightarrow> need (snd m) \<le> n \<Longrightarrow>
        parseValue num n (ser (snd m) @ rest) = Some (asJSON (snd m), rest)"
    and start: "\<And>v. \<exists>c cs. ser v = c # cs \<and> (c = 0x22 \<or> c = 0x5B \<or> c = 0x7B)"
    and ws: "wsOnly w" "wsOnly w0" "wsOnly w1" "wsOnly w2"
    and ms: "ms \<noteq> []"
    and n: "sum_list (map (\<lambda>m. Suc (need (snd m))) ms) \<le> n"
    and dist: "distinct (map fst ms)"
  shows "parseValue num (Suc n)
           (0x7B # w @ join (0x2C # w1)
               (map (\<lambda>m. QuoteJSONString (fst m) @ [0x3A] @ w0 @ ser (snd m)) ms)
             @ w2 @ 0x7D # rest)
         = Some (JObject (map (\<lambda>m. (fst m, asJSON (snd m))) ms), rest)"
proof -
  let ?mem = "\<lambda>m. QuoteJSONString (fst m) @ [0x3A] @ w0 @ ser (snd m)"
  let ?body = "join (0x2C # w1) (map ?mem ms) @ w2 @ 0x7D # rest"
  obtain m' ms' where m': "ms = m' # ms'" using ms by (cases ms) auto
  have "\<exists>ds. ?body = 0x22 # ds"
    unfolding m' list.map join_Cons by (simp add: QuoteJSONString_Cons)
  then obtain ds where d: "?body = 0x22 # ds" by blast
  have sk: "skipWS (w @ ?body) = 0x22 # ds"
    using ws(1) d by (simp add: skipWS_ws skipWS_start isJSONWhiteSpace_def del: append_assoc)
  have dist': "distinct (map fst ([] :: (jsstring \<times> 'a json) list) @ map fst ms)"
    using dist by simp
  have el: "parseMembers num n [] (0x22 # ds)
      = Some ([] @ map (\<lambda>m. (fst m, asJSON (snd m))) ms, rest)"
    unfolding d [symmetric]
    by (rule members_roundtrip [OF each start ws(2,3,4) ms n dist'])
  show ?thesis using sk el by simp
qed


lemma serialize_roundtrip:
  "wsOnly gap \<Longrightarrow> wsOnly indent \<Longrightarrow> distinctKeys v \<Longrightarrow> need v \<le> n \<Longrightarrow>
   parseValue num n (SerializeJSONProperty gap indent v @ rest) = Some (asJSON v, rest)"
proof (induction v arbitrary: n indent rest)
  case (VString s)
  then obtain n' where "n = Suc n'" by (cases n) auto
  then show ?case by (simp only: SerializeJSONProperty.simps parseValue_string asJSON.simps)
next
  case (VArray vs)
  obtain n' where n: "n = Suc n'" "sum_list (map (\<lambda>v. Suc (need v)) vs) \<le> n'"
    using VArray.prems(4) by (cases n) auto
  let ?ser = "SerializeJSONProperty gap (indent @ gap)"
  have each: "\<And>v n rest. v \<in> set vs \<Longrightarrow> need v \<le> n \<Longrightarrow>
        parseValue num n (?ser v @ rest) = Some (asJSON v, rest)"
    using VArray.IH VArray.prems(1,2,3) by (simp add: list_all_iff)
  have start: "\<And>v. \<exists>c cs. ?ser v = c # cs \<and> (c = 0x22 \<or> c = 0x5B \<or> c = 0x7B)"
    by (rule serialize_start)
  show ?case
  proof (cases "vs = []")
    case True
    then show ?thesis by (simp add: n(1) skipWS_start isJSONWhiteSpace_def)
  next
    case False
    show ?thesis
    proof (cases "gap = []")
      case True
      have "parseValue num (Suc n')
           (0x5B # [] @ join (0x2C # []) (map ?ser vs) @ [] @ 0x5D # rest)
         = Some (JArray (map asJSON vs), rest)"
        by (rule array_roundtrip [OF each start _ _ _ False n(2)]) simp_all
      then show ?thesis using False True by (simp add: n(1) Let_def)
    next
      case gap: False
      have "parseValue num (Suc n')
           (0x5B # (0x0A # indent @ gap)
              @ join (0x2C # (0x0A # indent @ gap)) (map ?ser vs) @ (0x0A # indent) @ 0x5D # rest)
         = Some (JArray (map asJSON vs), rest)"
        using VArray.prems(1,2)
        by (intro array_roundtrip [OF each start _ _ _ False n(2)]) simp_all
      then show ?thesis using False gap by (simp add: n(1) Let_def)
    qed
  qed
next
  case (VObject ms)
  obtain n' where n: "n = Suc n'" "sum_list (map (\<lambda>m. Suc (need (snd m))) ms) \<le> n'"
    using VObject.prems(4) by (cases n) auto
  let ?ser = "SerializeJSONProperty gap (indent @ gap)"
  have each: "\<And>m n rest. m \<in> set ms \<Longrightarrow> need (snd m) \<le> n \<Longrightarrow>
        parseValue num n (?ser (snd m) @ rest) = Some (asJSON (snd m), rest)"
  proof -
    fix m n rest
    assume m: "m \<in> set ms" and le: "need (snd m) \<le> n"
    have "snd m \<in> Basic_BNFs.snds m" by (cases m) simp
    moreover have "distinctKeys (snd m)" using VObject.prems(3) m by (simp add: list_all_iff)
    ultimately show "parseValue num n (?ser (snd m) @ rest) = Some (asJSON (snd m), rest)"
      using VObject.IH [OF m] VObject.prems(1,2) le by simp
  qed
  have start: "\<And>v. \<exists>c cs. ?ser v = c # cs \<and> (c = 0x22 \<or> c = 0x5B \<or> c = 0x7B)"
    by (rule serialize_start)
  have dist: "distinct (map fst ms)" using VObject.prems(3) by simp
  show ?case
  proof (cases "ms = []")
    case True
    then show ?thesis by (simp add: n(1) skipWS_start isJSONWhiteSpace_def)
  next
    case False
    show ?thesis
    proof (cases "gap = []")
      case True
      have "parseValue num (Suc n')
           (0x7B # [] @ join (0x2C # [])
               (map (\<lambda>m. QuoteJSONString (fst m) @ [0x3A] @ [] @ ?ser (snd m)) ms)
             @ [] @ 0x7D # rest)
         = Some (JObject (map (\<lambda>m. (fst m, asJSON (snd m))) ms), rest)"
        by (rule object_roundtrip [OF each start _ _ _ _ False n(2) dist]) simp_all
      then show ?thesis using False True by (simp add: n(1) Let_def)
    next
      case gap: False
      have "parseValue num (Suc n')
           (0x7B # (0x0A # indent @ gap) @ join (0x2C # (0x0A # indent @ gap))
               (map (\<lambda>m. QuoteJSONString (fst m) @ [0x3A] @ [0x20] @ ?ser (snd m)) ms)
             @ (0x0A # indent) @ 0x7D # rest)
         = Some (JObject (map (\<lambda>m. (fst m, asJSON (snd m))) ms), rest)"
        using VObject.prems(1,2)
        by (intro object_roundtrip [OF each start _ _ _ _ False n(2) dist]) simp_all
      then show ?thesis using False gap by (simp add: n(1) Let_def)
    qed
  qed
qed


lemma join_length:
  "xs \<noteq> [] \<Longrightarrow> sep \<noteq> [] \<Longrightarrow>
   sum_list (map (\<lambda>x. Suc (length x)) xs) \<le> Suc (length (join sep xs))"
proof (induction xs)
  case Nil
  then show ?case by simp
next
  case (Cons x xs)
  show ?case
  proof (cases "xs = []")
    case True
    then show ?thesis by simp
  next
    case False
    obtain k where "length sep = Suc k" using Cons.prems(2) by (cases sep) auto
    then show ?thesis using Cons.IH [OF False Cons.prems(2)] False
      by (simp add: join_Cons)
  qed
qed

lemma sum_list_mono2:
  "(\<And>x. x \<in> set xs \<Longrightarrow> f x \<le> (g x :: nat)) \<Longrightarrow>
   sum_list (map f xs) \<le> sum_list (map g xs)"
  by (induction xs) (auto intro: add_mono)

lemma need_le_length: "need v \<le> length (SerializeJSONProperty gap indent v)"
proof (induction v arbitrary: indent)
  case (VString s)
  show ?case by (simp add: QuoteJSONString_Cons)
next
  case (VArray vs)
  let ?ser = "SerializeJSONProperty gap (indent @ gap)"
  show ?case
  proof (cases "vs = []")
    case True
    then show ?thesis by simp
  next
    case False
    have a: "sum_list (map (\<lambda>v. Suc (need v)) vs)
        \<le> sum_list (map (\<lambda>x. Suc (length x)) (map ?ser vs))"
      unfolding map_map comp_def
      by (rule sum_list_mono2) (simp add: VArray.IH)
    have b: "\<And>sep. sep \<noteq> [] \<Longrightarrow>
        sum_list (map (\<lambda>x. Suc (length x)) (map ?ser vs)) \<le> Suc (length (join sep (map ?ser vs)))"
      using False by (intro join_length) simp_all
    show ?thesis
    proof (cases "gap = []")
      case True
      then show ?thesis using False a b [of "[0x2C]"] by (simp add: Let_def)
    next
      case gap: False
      then show ?thesis using False a b [of "0x2C # 0x0A # indent @ gap"]
        by (simp add: Let_def)
    qed
  qed
next
  case (VObject ms)
  let ?ser = "SerializeJSONProperty gap (indent @ gap)"
  let ?mem = "\<lambda>m. QuoteJSONString (fst m) @ js '':''
                              @ (if gap \<noteq> [] then js '' '' else []) @ ?ser (snd m)"
  show ?case
  proof (cases "ms = []")
    case True
    then show ?thesis by simp
  next
    case False
    have a: "sum_list (map (\<lambda>m. Suc (need (snd m))) ms)
        \<le> sum_list (map (\<lambda>x. Suc (length x)) (map ?mem ms))"
      unfolding map_map comp_def
    proof (rule sum_list_mono2)
      fix m assume m: "m \<in> set ms"
      have "snd m \<in> Basic_BNFs.snds m" by (cases m) simp
      then have "need (snd m) \<le> length (?ser (snd m))" using VObject.IH [OF m] by simp
      then show "Suc (need (snd m)) \<le> Suc (length (?mem m))" by simp
    qed
    have b: "\<And>sep. sep \<noteq> [] \<Longrightarrow>
        sum_list (map (\<lambda>x. Suc (length x)) (map ?mem ms)) \<le> Suc (length (join sep (map ?mem ms)))"
      using False by (intro join_length) simp_all
    show ?thesis
    proof (cases "gap = []")
      case True
      then show ?thesis using False a b [of "[0x2C]"] by (simp add: Let_def)
    next
      case gap: False
      then show ?thesis using False a b [of "0x2C # 0x0A # indent @ gap"]
        by (simp add: Let_def)
    qed
  qed
qed

lemma JSON_roundtrip:
  assumes "distinctKeys v"
  shows "JSON_parse num (JSON_stringify v space) = Some (asJSON v)"
proof -
  let ?gap = "replicate (min space 10) (0x20 :: code_unit)"
  let ?s = "SerializeJSONProperty ?gap [] v"
  have gap: "wsOnly ?gap" by (simp add: wsOnly_def isJSONWhiteSpace_def list_all_iff)
  obtain c cs where c: "?s = c # cs" "c = 0x22 \<or> c = 0x5B \<or> c = 0x7B"
    using serialize_start [of ?gap "[]" v] by blast
  have sk: "skipWS ?s = ?s" unfolding c(1) using c(2) start_not_ws by (simp add: skipWS_start)
  have "need v \<le> 2 * length ?s + 2" using need_le_length [of v ?gap "[]"] by simp
  then have "parseValue num (2 * length ?s + 2) (?s @ []) = Some (asJSON v, [])"
    using gap assms by (intro serialize_roundtrip) simp_all
  then have pv: "parseValue num (2 * length ?s + 2) ?s = Some (asJSON v, [])"
    by (simp only: append_Nil2)
  show ?thesis unfolding JSON_parse_def JSON_stringify_def sk pv
    by (simp add: skipWS_def)
qed

section \<open>JSON: the bound on the parser's calls is enough\<close>

lemma consUnit_Some:
  "consUnit c x = Some (s, r) \<Longrightarrow> \<exists>s'. x = Some (s', r)"
  by (cases x) (auto simp: consUnit_def)

lemma parseChars_consumes: "parseChars cs = Some (s, r) \<Longrightarrow> length r < length cs"
proof (induction cs arbitrary: s rule: parseChars.induct)
  case 1
  then show ?case by simp
next
  case (2 c cs)
  show ?case
  proof (cases "c = 0x22")
    case True
    with 2(4) show ?thesis by simp
  next
    case nq: False
    show ?thesis
    proof (cases "c = 0x5C")
      case False
      with nq 2(4) have "c \<noteq> 0x22" "c \<noteq> 0x5C" "\<not> c < 0x20"
        and cu: "consUnit c (parseChars cs) = Some (s, r)"
        by (auto split: if_splits)
      from cu obtain s' where "parseChars cs = Some (s', r)" using consUnit_Some by blast
      then have "length r < length cs" using 2(3) nq False \<open>\<not> c < 0x20\<close> by blast
      then show ?thesis by simp
    next
      case bs: True
      then obtain e es where cs: "cs = e # es" using 2(4) nq by (cases cs) auto
      show ?thesis
      proof (cases "e = 0x75")
        case True
        then obtain u where u: "unhex4 (take 4 es) = Some u"
          and cu: "consUnit u (parseChars (drop 4 es)) = Some (s, r)"
          using 2(4) nq bs cs by (auto split: option.splits)
        from cu obtain s' where "parseChars (drop 4 es) = Some (s', r)"
          using consUnit_Some by blast
        then have "length r < length (drop 4 es)" using 2(1) nq bs cs True u by blast
        then show ?thesis using cs by simp
      next
        case False
        then obtain u where u: "unescape e = Some u"
          and cu: "consUnit u (parseChars es) = Some (s, r)"
          using 2(4) nq bs cs by (auto split: option.splits)
        from cu obtain s' where "parseChars es = Some (s', r)" using consUnit_Some by blast
        then have "length r < length es" using 2(2) nq bs cs False u by blast
        then show ?thesis using cs by simp
      qed
    qed
  qed
qed

lemma skipWS_length: "length (skipWS s) \<le> length s"
  by (simp add: skipWS_def length_dropWhile_le)

lemma skipWS_Cons_length: "skipWS s = c # cs \<Longrightarrow> length cs < length s"
  using skipWS_length [of s] by simp

lemma parseNumber_consumes: "parseNumber s = Some (lexeme, r) \<Longrightarrow> length r < length s"
proof -
  assume a: "parseNumber s = Some (lexeme, r)"
  have int: "\<And>x d y. parseInteger x = Some (d, y) \<Longrightarrow> length y < length x"
    by (auto simp: parseInteger_def isDigit_def split: list.splits if_splits
          intro: le_imp_less_Suc length_dropWhile_le)
  have frac: "\<And>x d y. parseFraction x = Some (d, y) \<Longrightarrow> length y \<le> length x"
    by (auto simp: parseFraction_def split: list.splits if_splits
          intro: le_SucI length_dropWhile_le)
  have sign: "\<And>x. length (snd (parseSign x)) \<le> length x"
    by (auto simp: parseSign_def split: list.splits)
  have expo: "\<And>x d y. parseExponent x = Some (d, y) \<Longrightarrow> length y \<le> length x"
  proof -
    fix x d y assume e: "parseExponent x = Some (d, y)"
    show "length y \<le> length x"
    proof (cases x)
      case Nil
      with e show ?thesis by (simp add: parseExponent_def)
    next
      case (Cons c cs)
      show ?thesis
      proof (cases "c = 0x65 \<or> c = 0x45")
        case False
        with e Cons show ?thesis by (auto simp: parseExponent_def)
      next
        case True
        with e Cons have "y = dropWhile isDigit (snd (parseSign cs))"
          by (auto simp: parseExponent_def split: prod.splits if_splits)
        then have "length y \<le> length (snd (parseSign cs))" by (simp add: length_dropWhile_le)
        then show ?thesis using sign [of cs] Cons by simp
      qed
    qed
  qed
  define s1 where "s1 = (case s of [] \<Rightarrow> s | c # cs \<Rightarrow> if c = 0x2D then cs else s)"
  have s1: "length s1 \<le> length s" by (auto simp: s1_def split: list.splits)
  have "\<exists>d s2 f s3 e. parseInteger s1 = Some (d, s2)
      \<and> parseFraction s2 = Some (f, s3) \<and> parseExponent s3 = Some (e, r)"
    using a unfolding parseNumber_def s1_def
    by (cases s) (auto split: if_splits option.splits prod.splits)
  then obtain d s2 f s3 e where i: "parseInteger s1 = Some (d, s2)"
    and f: "parseFraction s2 = Some (f, s3)" and e: "parseExponent s3 = Some (e, r)"
    by blast
  show ?thesis using s1 int [OF i] frac [OF f] expo [OF e] by simp
qed


lemma adequateV_step:
  assumes E: "adequateE num n" and M: "adequateM num n"
  shows "adequateV num (Suc n)"
  unfolding adequateV_def
proof (intro allI impI)
  fix s v r
  assume pv: "parseValue num (Suc n) s = Some (v, r)"
  then obtain c cs where s: "s = c # cs" by (cases s) auto
  have flat: "length r < length s \<Longrightarrow>
      (\<And>m'. parseValue num (Suc m') s = Some (v, r)) \<Longrightarrow>
      length r < length s \<and>
      (\<forall>m. 2 * (length s - length r) \<le> m + 1 \<longrightarrow> parseValue num m s = Some (v, r))"
  proof (intro conjI allI impI)
    fix m
    assume lt: "length r < length s" and all: "\<And>m'. parseValue num (Suc m') s = Some (v, r)"
      and m: "2 * (length s - length r) \<le> m + 1"
    from lt m obtain m' where "m = Suc m'" by (cases m) auto
    then show "parseValue num m s = Some (v, r)" using all by simp
  qed
  show "length r < length s \<and>
      (\<forall>m. 2 * (length s - length r) \<le> m + 1 \<longrightarrow> parseValue num m s = Some (v, r))"
  proof (cases "c = 0x22")
    case True
    then obtain str where pc: "parseChars cs = Some (str, r)" and v: "v = JString str"
      using pv s by auto
    have "length r < length s" using parseChars_consumes [OF pc] s by simp
    then show ?thesis using True pc v s by (intro flat) auto
  next
    case nq: False
    show ?thesis
    proof (cases "c = 0x5B")
      case True
      then obtain d ds where sk: "skipWS cs = d # ds"
        using pv s nq by (cases "skipWS cs") auto
      have dl: "length ds < length cs" using sk by (rule skipWS_Cons_length)
      show ?thesis
      proof (cases "d = 0x5D")
        case True
        then have "v = JArray []" "r = ds" using pv s nq \<open>c = 0x5B\<close> sk by auto
        then show ?thesis using dl s nq \<open>c = 0x5B\<close> sk True by (intro flat) auto
      next
        case False
        then obtain vs where pe: "parseElements num n [] (d # ds) = Some (vs, r)"
          and v: "v = JArray vs"
          using pv s nq \<open>c = 0x5B\<close> sk by auto
        from E pe have lt: "length r < length (d # ds)"
          and en: "\<And>m. 2 * (length (d # ds) - length r) \<le> m \<Longrightarrow>
              parseElements num m [] (d # ds) = Some (vs, r)"
          unfolding adequateE_def by blast+
        have len: "length (d # ds) \<le> length cs" using dl by simp
        show ?thesis
        proof (intro conjI allI impI)
          show "length r < length s" using lt len s by simp
          fix m assume m: "2 * (length s - length r) \<le> m + 1"
          then obtain m' where m': "m = Suc m'" using lt len s by (cases m) auto
          have "2 * (length (d # ds) - length r) \<le> m'" using m m' len lt s by simp
          then have "parseElements num m' [] (d # ds) = Some (vs, r)" by (rule en)
          then show "parseValue num m s = Some (v, r)"
            using m' s nq \<open>c = 0x5B\<close> sk False v by simp
        qed
      qed
    next
      case na: False
      show ?thesis
      proof (cases "c = 0x7B")
        case True
        then obtain d ds where sk: "skipWS cs = d # ds"
          using pv s nq na by (cases "skipWS cs") auto
        have dl: "length ds < length cs" using sk by (rule skipWS_Cons_length)
        show ?thesis
        proof (cases "d = 0x7D")
          case True
          then have "v = JObject []" "r = ds" using pv s nq na \<open>c = 0x7B\<close> sk by auto
          then show ?thesis using dl s nq na \<open>c = 0x7B\<close> sk True by (intro flat) auto
        next
          case False
          then obtain ms where pe: "parseMembers num n [] (d # ds) = Some (ms, r)"
            and v: "v = JObject ms"
            using pv s nq na \<open>c = 0x7B\<close> sk by auto
          from M pe have lt: "length r < length (d # ds)"
            and en: "\<And>m. 2 * (length (d # ds) - length r) \<le> m \<Longrightarrow>
                parseMembers num m [] (d # ds) = Some (ms, r)"
            unfolding adequateM_def by blast+
          have len: "length (d # ds) \<le> length cs" using dl by simp
          show ?thesis
          proof (intro conjI allI impI)
            show "length r < length s" using lt len s by simp
            fix m assume m: "2 * (length s - length r) \<le> m + 1"
            then obtain m' where m': "m = Suc m'" using lt len s by (cases m) auto
            have "2 * (length (d # ds) - length r) \<le> m'" using m m' len lt s by simp
            then have "parseMembers num m' [] (d # ds) = Some (ms, r)" by (rule en)
            then show "parseValue num m s = Some (v, r)"
              using m' s nq na \<open>c = 0x7B\<close> sk False v by simp
          qed
        qed
      next
        case no: False
        have same: "\<And>m'. parseValue num (Suc m') s = parseValue num (Suc n) s"
          using s nq na no by simp
        have "length r < length s"
        proof (cases "prefix (js ''null'') s \<or> prefix (js ''true'') s \<or> prefix (js ''false'') s")
          case True
          then have "r = drop 4 s \<or> r = drop 5 s" using pv s nq na no by (auto split: if_splits)
          then show ?thesis using s by auto
        next
          case False
          then obtain lexeme where "parseNumber s = Some (lexeme, r)"
            using pv s nq na no by (auto split: if_splits)
          then show ?thesis by (rule parseNumber_consumes)
        qed
        then show ?thesis using same pv by (intro flat) auto
      qed
    qed
  qed
qed


lemma adequateE_step:
  assumes V: "adequateV num n" and E: "adequateE num n"
  shows "adequateE num (Suc n)"
  unfolding adequateE_def
proof (intro allI impI)
  fix acc s vs r
  assume pe: "parseElements num (Suc n) acc s = Some (vs, r)"
  then obtain v r1 where pv: "parseValue num n s = Some (v, r1)"
    by (cases "parseValue num n s") auto
  from V pv have l1: "length r1 < length s"
    and vn: "\<And>m. 2 * (length s - length r1) \<le> m + 1 \<Longrightarrow> parseValue num m s = Some (v, r1)"
    unfolding adequateV_def by blast+
  obtain c cs where sk: "skipWS r1 = c # cs"
    using pe pv by (cases "skipWS r1") auto
  have lc: "length cs < length r1" using sk by (rule skipWS_Cons_length)
  show "length r < length s \<and>
      (\<forall>m. 2 * (length s - length r) \<le> m \<longrightarrow> parseElements num m acc s = Some (vs, r))"
  proof (cases "c = 0x2C")
    case True
    then have rest: "parseElements num n (acc @ [v]) (skipWS cs) = Some (vs, r)"
      using pe pv sk by simp
    from E rest have l2: "length r < length (skipWS cs)"
      and en: "\<And>m. 2 * (length (skipWS cs) - length r) \<le> m \<Longrightarrow>
          parseElements num m (acc @ [v]) (skipWS cs) = Some (vs, r)"
      unfolding adequateE_def by blast+
    have l3: "length (skipWS cs) \<le> length cs" by (rule skipWS_length)
    show ?thesis
    proof (intro conjI allI impI)
      show "length r < length s" using l1 lc l2 l3 by simp
      fix m assume m: "2 * (length s - length r) \<le> m"
      then obtain m' where m': "m = Suc m'" using l1 lc l2 l3 by (cases m) auto
      have "2 * (length s - length r1) \<le> m' + 1" using m m' l1 lc l2 l3 by simp
      then have a: "parseValue num m' s = Some (v, r1)" by (rule vn)
      have "2 * (length (skipWS cs) - length r) \<le> m'" using m m' l1 lc l2 l3 by simp
      then have b: "parseElements num m' (acc @ [v]) (skipWS cs) = Some (vs, r)" by (rule en)
      show "parseElements num m acc s = Some (vs, r)"
        using m' a b sk True by simp
    qed
  next
    case False
    then have fin: "c = 0x5D" "vs = acc @ [v]" "r = cs"
      using pe pv sk by (auto split: if_splits)
    show ?thesis
    proof (intro conjI allI impI)
      show "length r < length s" using l1 lc fin by simp
      fix m assume m: "2 * (length s - length r) \<le> m"
      then obtain m' where m': "m = Suc m'" using l1 lc fin by (cases m) auto
      have "2 * (length s - length r1) \<le> m' + 1" using m m' l1 lc fin by simp
      then have a: "parseValue num m' s = Some (v, r1)" by (rule vn)
      show "parseElements num m acc s = Some (vs, r)"
        using m' a sk fin by simp
    qed
  qed
qed

lemma adequateM_step:
  assumes V: "adequateV num n" and M: "adequateM num n"
  shows "adequateM num (Suc n)"
  unfolding adequateM_def
proof (intro allI impI)
  fix acc s ms r
  assume pm: "parseMembers num (Suc n) acc s = Some (ms, r)"
  then obtain qs where s: "s = 0x22 # qs" by (cases s) (auto split: if_splits)
  obtain k r0 where pc: "parseChars qs = Some (k, r0)"
    using pm s by (cases "parseChars qs") auto
  have l0: "length r0 < length qs" using pc by (rule parseChars_consumes)
  obtain cs0 where sk0: "skipWS r0 = 0x3A # cs0"
    using pm s pc by (cases "skipWS r0") (auto split: if_splits)
  have lc0: "length cs0 < length r0" using sk0 by (rule skipWS_Cons_length)
  let ?vs = "skipWS cs0"
  have lv: "length ?vs \<le> length cs0" by (rule skipWS_length)
  obtain v r1 where pv: "parseValue num n ?vs = Some (v, r1)"
    using pm s pc sk0 by (cases "parseValue num n ?vs") auto
  from V pv have l1: "length r1 < length ?vs"
    and vn: "\<And>m. 2 * (length ?vs - length r1) \<le> m + 1 \<Longrightarrow>
        parseValue num m ?vs = Some (v, r1)"
    unfolding adequateV_def by blast+
  obtain c cs where sk: "skipWS r1 = c # cs"
    using pm s pc sk0 pv by (cases "skipWS r1") auto
  have lc: "length cs < length r1" using sk by (rule skipWS_Cons_length)
  show "length r < length s \<and>
      (\<forall>m. 2 * (length s - length r) \<le> m \<longrightarrow> parseMembers num m acc s = Some (ms, r))"
  proof (cases "c = 0x2C")
    case True
    then have rest: "parseMembers num n (putMember acc k v) (skipWS cs) = Some (ms, r)"
      using pm s pc sk0 pv sk by simp
    from M rest have l2: "length r < length (skipWS cs)"
      and en: "\<And>m. 2 * (length (skipWS cs) - length r) \<le> m \<Longrightarrow>
          parseMembers num m (putMember acc k v) (skipWS cs) = Some (ms, r)"
      unfolding adequateM_def by blast+
    have l3: "length (skipWS cs) \<le> length cs" by (rule skipWS_length)
    show ?thesis
    proof (intro conjI allI impI)
      show "length r < length s" using s l0 lc0 lv l1 lc l2 l3 by simp
      fix m assume m: "2 * (length s - length r) \<le> m"
      then obtain m' where m': "m = Suc m'" using s l0 lc0 lv l1 lc l2 l3 by (cases m) auto
      have "2 * (length ?vs - length r1) \<le> m' + 1"
        using m m' s l0 lc0 lv l1 lc l2 l3 by simp
      then have a: "parseValue num m' ?vs = Some (v, r1)" by (rule vn)
      have "2 * (length (skipWS cs) - length r) \<le> m'"
        using m m' s l0 lc0 lv l1 lc l2 l3 by simp
      then have b: "parseMembers num m' (putMember acc k v) (skipWS cs) = Some (ms, r)"
        by (rule en)
      show "parseMembers num m acc s = Some (ms, r)"
        using m' s pc sk0 a b sk True by simp
    qed
  next
    case False
    then have fin: "c = 0x7D" "ms = putMember acc k v" "r = cs"
      using pm s pc sk0 pv sk by (auto split: if_splits)
    show ?thesis
    proof (intro conjI allI impI)
      show "length r < length s" using s l0 lc0 lv l1 lc fin by simp
      fix m assume m: "2 * (length s - length r) \<le> m"
      then obtain m' where m': "m = Suc m'" using s l0 lc0 lv l1 lc fin by (cases m) auto
      have "2 * (length ?vs - length r1) \<le> m' + 1"
        using m m' s l0 lc0 lv l1 lc fin by simp
      then have a: "parseValue num m' ?vs = Some (v, r1)" by (rule vn)
      show "parseMembers num m acc s = Some (ms, r)"
        using m' s pc sk0 a sk fin by simp
    qed
  qed
qed

lemma adequate_all: "adequateV num n \<and> adequateE num n \<and> adequateM num n"
proof (induction n)
  case 0
  show ?case by (simp add: adequateV_def adequateE_def adequateM_def)
next
  case (Suc n)
  then show ?case using adequateV_step adequateE_step adequateM_step by blast
qed

text \<open>
  The bound \<open>JSON_parse\<close> starts the parser with loses nothing: a text that can be
  parsed with some bound is parsed, with the same result, with this one.
\<close>

lemma JSON_parse_bound:
  assumes "parseValue num n (skipWS s) = Some (v, r)"
  shows "parseValue num (2 * length s + 2) (skipWS s) = Some (v, r)"
proof -
  have "adequateV num n" using adequate_all by blast
  then have "\<forall>m. 2 * (length (skipWS s) - length r) \<le> m + 1 \<longrightarrow>
      parseValue num m (skipWS s) = Some (v, r)"
    using assms unfolding adequateV_def by blast
  moreover have "2 * (length (skipWS s) - length r) \<le> (2 * length s + 2) + 1"
    using skipWS_length [of s] by simp
  ultimately show ?thesis by blast
qed

lemma JSON_parse_None_iff:
  "JSON_parse num s = None \<longleftrightarrow>
     (\<forall>n v r. parseValue num n (skipWS s) = Some (v, r) \<longrightarrow> skipWS r \<noteq> [])"
proof
  assume none: "JSON_parse num s = None"
  show "\<forall>n v r. parseValue num n (skipWS s) = Some (v, r) \<longrightarrow> skipWS r \<noteq> []"
  proof (intro allI impI)
    fix n v r assume "parseValue num n (skipWS s) = Some (v, r)"
    then have pv: "parseValue num (2 * length s + 2) (skipWS s) = Some (v, r)"
      by (rule JSON_parse_bound)
    show "skipWS r \<noteq> []" using none unfolding JSON_parse_def pv by (simp split: if_splits)
  qed
next
  assume all: "\<forall>n v r. parseValue num n (skipWS s) = Some (v, r) \<longrightarrow> skipWS r \<noteq> []"
  show "JSON_parse num s = None"
  proof (cases "parseValue num (2 * length s + 2) (skipWS s)")
    case None
    show ?thesis unfolding JSON_parse_def None by simp
  next
    case (Some p)
    obtain v r where p: "p = (v, r)" by (cases p)
    have "skipWS r \<noteq> []" using all Some p by blast
    then show ?thesis unfolding JSON_parse_def Some p by simp
  qed
qed

section \<open>The bridge delivers serialised values unchanged\<close>

lemma serialize_end:
  "\<exists>cs c. SerializeJSONProperty gap indent v = cs @ [c] \<and> (c = 0x22 \<or> c = 0x5D \<or> c = 0x7D)"
proof (cases v)
  case (VString s)
  then show ?thesis by (simp add: QuoteJSONString_def)
next
  case (VArray vs)
  show ?thesis
  proof (cases "vs = []")
    case True
    then show ?thesis using VArray by (auto intro: exI [of _ "[0x5B]"])
  next
    case False
    then show ?thesis using VArray
      by (auto simp: Let_def simp flip: append_assoc append_Cons)
  qed
next
  case (VObject ms)
  show ?thesis
  proof (cases "ms = []")
    case True
    then show ?thesis using VObject by (auto intro: exI [of _ "[0x7B]"])
  next
    case False
    then show ?thesis using VObject
      by (auto simp: Let_def simp flip: append_assoc append_Cons)
  qed
qed

lemma trim_line:
  assumes "s = c # cs" "s = ds @ [d]" "\<not> isWhiteSpace c" "\<not> isWhiteSpace d"
  shows "trim (s @ [0x0A]) = s"
proof -
  have a: "dropWhile isWhiteSpace (s @ [0x0A]) = s @ [0x0A]"
    using assms(1,3) by simp
  have lf: "isWhiteSpace 0x0A" by (simp add: isWhiteSpace_def)
  have b: "dropWhile isWhiteSpace (rev (s @ [0x0A])) = rev s"
    using assms(2,4) lf by simp
  show ?thesis unfolding trim_def a b by simp
qed

lemma chromeJS_Working:
  "chromeJS (execSync Working (JSON_stringify v space)) = JSON_stringify v space"
proof -
  let ?s = "JSON_stringify v space"
  obtain c cs where c: "?s = c # cs" "c = 0x22 \<or> c = 0x5B \<or> c = 0x7B"
    unfolding JSON_stringify_def using serialize_start by blast
  obtain ds d where d: "?s = ds @ [d]" "d = 0x22 \<or> d = 0x5D \<or> d = 0x7D"
    unfolding JSON_stringify_def using serialize_end by blast
  have "\<not> isWhiteSpace c" using c(2) by (auto simp: isWhiteSpace_def)
  moreover have "\<not> isWhiteSpace d" using d(2) by (auto simp: isWhiteSpace_def)
  ultimately have "trim (?s @ [0x0A]) = ?s" using c(1) d(1) by (intro trim_line)
  then show ?thesis by (simp add: chromeJS_def execSync_def)
qed

lemma chromeJS_Broken: "chromeJS (execSync Broken s) = []"
  by (simp add: chromeJS_def execSync_def)

lemma JSON_parse_empty: "JSON_parse num [] = None"
  by (simp add: JSON_parse_def skipWS_def)

section \<open>Discovery\<close>

lemma getHref_link: "getHref (linkJSON l) = Inr (KString (href l))"
  by (simp add: linkJSON_def)

lemma has_strings: "has (map KString seen) (KString h) = (h \<in> set seen)"
  by (auto simp: has_def)

lemma filterLinks_links:
  "filterLinks (map linkJSON ls) (map KString seen)
     = (Inr (map linkJSON (dropSeen ls seen)) :: js_error + 'n json list)"
proof (induction ls arbitrary: seen)
  case Nil
  show ?case by simp
next
  case (Cons l ls)
  have "filterLinks (map linkJSON ls) (map KString seen @ [KString (href l)])
      = (Inr (map linkJSON (dropSeen ls (seen @ [href l]))) :: js_error + 'n json list)"
    using Cons.IH [of "seen @ [href l]"] by simp
  then show ?case by (simp add: getHref_link has_strings Cons.IH)
qed

lemma dropSeen_firstSeen:
  "dropSeen ls seen = firstSeen (filter (\<lambda>l. href l \<notin> set seen) ls)"
proof (induction ls arbitrary: seen)
  case Nil
  show ?case by simp
next
  case (Cons l ls)
  have "filter (\<lambda>x. href x \<noteq> href l) (filter (\<lambda>l. href l \<notin> set seen) ls)
      = filter (\<lambda>x. href x \<notin> set (seen @ [href l])) ls"
    by (auto intro: filter_cong)
  then show ?case by (simp add: Cons.IH)
qed

lemma dropSeen_Nil: "dropSeen ls [] = firstSeen ls"
  by (simp add: dropSeen_firstSeen)

lemma firstSeen_subseq: "subseq (firstSeen ls) ls"
proof (induction ls rule: firstSeen.induct)
  case 1
  show ?case by simp
next
  case (2 l ls)
  have "subseq (filter (\<lambda>x. href x \<noteq> href l) ls) ls" by simp
  with 2 have "subseq (firstSeen (filter (\<lambda>x. href x \<noteq> href l) ls)) ls"
    using subseq_order.trans by blast
  then show ?case by simp
qed

lemma firstSeen_hrefs: "href ` set (firstSeen ls) = href ` set ls"
proof (induction ls rule: firstSeen.induct)
  case 1
  show ?case by simp
next
  case (2 l ls)
  then show ?case by auto
qed

lemma firstSeen_distinct: "distinct (map href (firstSeen ls))"
proof (induction ls rule: firstSeen.induct)
  case 1
  show ?case by simp
next
  case (2 l ls)
  have "href l \<notin> href ` set (filter (\<lambda>x. href x \<noteq> href l) ls)" by auto
  then have "href l \<notin> href ` set (firstSeen (filter (\<lambda>x. href x \<noteq> href l) ls))"
    by (simp only: firstSeen_hrefs not_False_eq_True)
  with 2 show ?case by simp
qed

lemma firstSeen_first:
  "l \<in> set (firstSeen ls) \<Longrightarrow> find (\<lambda>x. href x = href l) ls = Some l"
proof (induction ls rule: firstSeen.induct)
  case 1
  then show ?case by simp
next
  case (2 k ls)
  show ?case
  proof (cases "l = k")
    case True
    then show ?thesis by simp
  next
    case False
    with 2(2) have in_rest: "l \<in> set (firstSeen (filter (\<lambda>x. href x \<noteq> href k) ls))" by simp
    then have "href l \<in> href ` set (filter (\<lambda>x. href x \<noteq> href k) ls)"
      using firstSeen_hrefs by blast
    then have ne: "href k \<noteq> href l" by auto
    have "find (\<lambda>x. href x = href l) (filter (\<lambda>x. href x \<noteq> href k) ls) = Some l"
      using 2(1) in_rest by simp
    moreover have "find (\<lambda>x. href x = href l) (filter (\<lambda>x. href x \<noteq> href k) ls)
        = find (\<lambda>x. href x = href l) ls"
      using ne by (induction ls) auto
    ultimately show ?thesis using ne by simp
  qed
qed

lemma asJSON_link: "asJSON (linkValue l) = linkJSON l"
  by (simp add: linkValue_def linkJSON_def)

lemma distinctKeys_links: "distinctKeys (VArray (map linkValue ls))"
  by (simp add: list_all_iff linkValue_def js_def)

lemma tryCollect_links:
  "tryCollect num (JSON_stringify (VArray (map linkValue ls)) 0)
     = Inr (map linkJSON (firstSeen ls))"
proof -
  have "JSON_parse num (JSON_stringify (VArray (map linkValue ls)) 0)
      = Some (JArray (map linkJSON ls))"
    using JSON_roundtrip [OF distinctKeys_links, of num ls 0]
    by (simp add: asJSON_link comp_def)
  moreover have "filterLinks (map linkJSON ls) [] = Inr (map linkJSON (firstSeen ls))"
    using filterLinks_links [of ls "[]"] by (simp add: dropSeen_Nil)
  ultimately show ?thesis by (simp add: tryCollect_def parseOrThrow_def)
qed

lemma collectChatsOn_Working:
  "collectChatsOn num Working anchors = Inr (map linkJSON (firstSeen (chatLinks anchors)))"
  by (simp add: collectChatsOn_def collectChats_def linksScript_def chromeJS_Working
        tryCollect_links)

lemma collectChatsOn_Broken: "collectChatsOn num Broken anchors = Inr []"
  by (simp add: collectChatsOn_def collectChats_def chromeJS_Broken tryCollect_def
        parseOrThrow_def JSON_parse_empty)

lemma extract_wellFormed_or_lastResort:
  "m \<in> set (fst (cascade p)) \<Longrightarrow>
     wellFormed m \<or> (role m = js ''Unknown'' \<and> content m \<noteq> [] \<and> trim (content m) = content m)"
proof -
  assume m: "m \<in> set (fst (cascade p))"
  have lr: "\<And>c. m \<in> set (lastResort c) \<Longrightarrow>
      role m = js ''Unknown'' \<and> content m \<noteq> [] \<and> trim (content m) = content m"
    by (auto simp: lastResort_def trimmed_wf split: option.splits if_splits)
  have fb: "m \<in> set (fallbackStrategy p) \<Longrightarrow> ?thesis"
    using strategy4_wf lr by (auto simp: fallbackStrategy_def split: option.splits if_splits)
  from m consider "m \<in> set (turnStrategy p)" | "m \<in> set (pairedStrategy p)"
    | "m \<in> set (roleStrategy p)" | "m \<in> set (fallbackStrategy p)"
    by (auto simp: cascade_def split: if_splits)
  then show ?thesis
  proof cases
    case 1 then show ?thesis using strategy1_wf by (auto simp: turnStrategy_def)
  next
    case 2 then show ?thesis using strategy2_wf by (auto simp: pairedStrategy_def)
  next
    case 3 then show ?thesis using strategy3_wf by (auto simp: roleStrategy_def)
  next
    case 4 then show ?thesis by (rule fb)
  qed
qed

lemma roles_distinct:
  "js ''Unknown'' \<noteq> js ''User''" "js ''Unknown'' \<noteq> js ''Gemini''" "js ''User'' \<noteq> js ''Gemini''"
  by (simp_all add: js_def)

lemma asJSON_message: "asJSON (messageValue m) = messageJSON m"
  by (simp add: messageValue_def messageJSON_def)

lemma distinctKeys_messages: "distinctKeys (VArray (map messageValue ms))"
  by (simp add: list_all_iff messageValue_def js_def)

lemma extractMessagesOn_Working:
  "extractMessagesOn num Working p = Inr (JArray (map messageJSON (fst (extractScript p))))"
  using JSON_roundtrip [OF distinctKeys_messages, of num "fst (extractScript p)" 0]
  by (simp add: extractMessagesOn_def extractMessages_def messagesScript_def chromeJS_Working
        parseOrThrow_def asJSON_message comp_def)

lemma extractMessagesOn_Broken: "extractMessagesOn num Broken p = Inr (JArray [])"
  by (simp add: extractMessagesOn_def extractMessages_def chromeJS_Broken
        parseOrThrow_def JSON_parse_empty)

section \<open>Claims about message extraction\<close>

lemma mixedPage_run:
  "extractScript mixedPage =
     ([\<lparr>role = js ''User'', content = js ''Hi there''\<rparr>,
       \<lparr>role = js ''Gemini'', content = js ''Hello!''\<rparr>],
      [QuerySelectorAll SelTurns])"
  by code_simp

lemma mixedPage_strategies:
  "turnStrategy mixedPage \<noteq> []" "pairedStrategy mixedPage \<noteq> []"
  "roleStrategy mixedPage \<noteq> []" "fallbackStrategy mixedPage \<noteq> []"
  by code_simp+

lemma cascade_cases:
  "cascade p =
     (if turnStrategy p \<noteq> [] then (turnStrategy p, [QuerySelectorAll SelTurns])
      else if pairedStrategy p \<noteq> [] then
        (pairedStrategy p,
         [QuerySelectorAll SelTurns, QuerySelectorAll SelQuery, QuerySelectorAll SelResponse])
      else if roleStrategy p \<noteq> [] then
        (roleStrategy p,
         [QuerySelectorAll SelTurns, QuerySelectorAll SelQuery, QuerySelectorAll SelResponse,
          QuerySelectorAll SelAuthorRole])
      else
        (fallbackStrategy p,
         [QuerySelectorAll SelTurns, QuerySelectorAll SelQuery, QuerySelectorAll SelResponse,
          QuerySelectorAll SelAuthorRole] @ containerCalls p))"
  by (simp add: cascade_def)

lemma turns_decide:
  assumes "turnStrategy p \<noteq> []" "matching p' SelTurns = matching p SelTurns"
  shows "extractScript p' = extractScript p"
proof -
  have "turnStrategy p' = turnStrategy p" using assms(2) by (simp add: turnStrategy_def)
  then show ?thesis using assms(1) by (simp add: extractScript_cascade cascade_cases)
qed

text \<open>
  Claim C1. On every page the script is the cascade of the four strategies in their
  fixed order (turn elements, paired regions, role attributes, structural fallback): the
  first strategy that yields a message gives the result, and the DOM calls of the run are
  those of the strategies up to that one and no others. When the turn strategy yields a
  message its result is returned after the single query for turn elements, and nothing
  else on the page has any influence on the run. What \<open>extractMessages\<close> returns through
  a working bridge is this result.
\<close>

theorem extractMessages_cascade:
  "extractScript p = cascade p
   \<and> cascade p =
       (if turnStrategy p \<noteq> [] then (turnStrategy p, [QuerySelectorAll SelTurns])
        else if pairedStrategy p \<noteq> [] then
          (pairedStrategy p,
           [QuerySelectorAll SelTurns, QuerySelectorAll SelQuery, QuerySelectorAll SelResponse])
        else if roleStrategy p \<noteq> [] then
          (roleStrategy p,
           [QuerySelectorAll SelTurns, QuerySelectorAll SelQuery, QuerySelectorAll SelResponse,
            QuerySelectorAll SelAuthorRole])
        else
          (fallbackStrategy p,
           [QuerySelectorAll SelTurns, QuerySelectorAll SelQuery, QuerySelectorAll SelResponse,
            QuerySelectorAll SelAuthorRole] @ containerCalls p))
   \<and> (turnStrategy p \<noteq> [] \<longrightarrow>
        extractScript p = (turnStrategy p, [QuerySelectorAll SelTurns])
        \<and> (\<forall>p'. matching p' SelTurns = matching p SelTurns \<longrightarrow>
               extractScript p' = extractScript p))
   \<and> extractMessagesOn num Working p = Inr (JArray (map messageJSON (fst (cascade p))))"
proof (intro conjI impI allI)
  show "extractScript p = cascade p" by (rule extractScript_cascade)
  show "cascade p =
       (if turnStrategy p \<noteq> [] then (turnStrategy p, [QuerySelectorAll SelTurns])
        else if pairedStrategy p \<noteq> [] then
          (pairedStrategy p,
           [QuerySelectorAll SelTurns, QuerySelectorAll SelQuery, QuerySelectorAll SelResponse])
        else if roleStrategy p \<noteq> [] then
          (roleStrategy p,
           [QuerySelectorAll SelTurns, QuerySelectorAll SelQuery, QuerySelectorAll SelResponse,
            QuerySelectorAll SelAuthorRole])
        else
          (fallbackStrategy p,
           [QuerySelectorAll SelTurns, QuerySelectorAll SelQuery, QuerySelectorAll SelResponse,
            QuerySelectorAll SelAuthorRole] @ containerCalls p))"
    by (rule cascade_cases)
  show "extractScript p = (turnStrategy p, [QuerySelectorAll SelTurns])"
    if "turnStrategy p \<noteq> []"
    using that by (simp add: extractScript_cascade cascade_cases)
  show "extractScript p' = extractScript p"
    if "turnStrategy p \<noteq> []" "matching p' SelTurns = matching p SelTurns" for p'
    using that by (rule turns_decide)
  show "extractMessagesOn num Working p = Inr (JArray (map messageJSON (fst (cascade p))))"
    by (simp add: extractMessagesOn_Working extractScript_cascade)
qed

theorem extractMessages_cascade_witness:
  "turnStrategy mixedPage \<noteq> [] \<and> pairedStrategy mixedPage \<noteq> []
   \<and> roleStrategy mixedPage \<noteq> [] \<and> fallbackStrategy mixedPage \<noteq> []
   \<and> extractScript mixedPage = (turnStrategy mixedPage, [QuerySelectorAll SelTurns])
   \<and> extractScript (mixedPage\<lparr>firstMatching := \<lambda>sel. None\<rparr>) = extractScript mixedPage"
proof -
  note T = extractMessages_cascade [of mixedPage id]
  have a: "turnStrategy mixedPage \<noteq> [] \<longrightarrow>
        extractScript mixedPage = (turnStrategy mixedPage, [QuerySelectorAll SelTurns])
        \<and> (\<forall>p'. matching p' SelTurns = matching mixedPage SelTurns \<longrightarrow>
               extractScript p' = extractScript mixedPage)"
    by (rule T [THEN conjunct2, THEN conjunct2, THEN conjunct1])
  have "matching (mixedPage\<lparr>firstMatching := \<lambda>sel. None\<rparr>) SelTurns = matching mixedPage SelTurns"
    by simp
  then show ?thesis using a mixedPage_strategies by blast
qed

lemma rawTextPage_run:
  "fst (extractScript rawTextPage) = [\<lparr>role = js ''Unknown'', content = js ''All the text''\<rparr>]"
  by code_simp

text \<open>
  Claim C5. Whatever strategy produced it, the last resort included, no message that
  the script returns has a content that is empty after trimming; the same holds for the
  messages \<open>extractMessages\<close> returns, through a working bridge (the script's messages)
  and through a broken one (none).
\<close>

theorem extractMessages_content_not_empty:
  "(\<forall>m \<in> set (fst (extractScript p)). trim (content m) \<noteq> [])
   \<and> extractMessagesOn num b p =
       Inr (JArray (map messageJSON (if b = Working then fst (extractScript p) else [])))"
proof
  show "\<forall>m \<in> set (fst (extractScript p)). trim (content m) \<noteq> []"
  proof
    fix m assume "m \<in> set (fst (extractScript p))"
    then have "m \<in> set (fst (cascade p))" by (simp add: extractScript_cascade)
    then show "trim (content m) \<noteq> []"
      using extract_wellFormed_or_lastResort [of m p] by (auto simp: wellFormed_def)
  qed
  show "extractMessagesOn num b p =
       Inr (JArray (map messageJSON (if b = Working then fst (extractScript p) else [])))"
    by (cases b) (simp_all add: extractMessagesOn_Working extractMessagesOn_Broken)
qed

theorem extractMessages_content_not_empty_witness:
  "fst (extractScript rawTextPage) = [\<lparr>role = js ''Unknown'', content = js ''All the text''\<rparr>]
   \<and> trim (js ''All the text'') \<noteq> []"
proof -
  have "\<forall>m \<in> set (fst (extractScript rawTextPage)). trim (content m) \<noteq> []"
    by (rule extractMessages_content_not_empty [of rawTextPage id Working, THEN conjunct1])
  then show ?thesis unfolding rawTextPage_run by simp
qed

lemma unknown_only_lastResort:
  assumes "m \<in> set (fst (cascade p))" "role m = js ''Unknown''"
  shows "turnStrategy p = [] \<and> pairedStrategy p = [] \<and> roleStrategy p = []
     \<and> (\<exists>c t. conversationContainer p = Some c \<and> strategy4 (children c) [] = []
           \<and> containerText c = Some t \<and> trim t \<noteq> []
           \<and> fst (cascade p) = [\<lparr>role = js ''Unknown'', content = trim t\<rparr>])"
proof -
  have nw: "\<not> wellFormed m" using assms(2) roles_distinct by (simp add: wellFormed_def)
  have n1: "turnStrategy p = []"
  proof (rule ccontr)
    assume "turnStrategy p \<noteq> []"
    then have "m \<in> set (strategy1 (matching p SelTurns) [])"
      using assms(1) by (simp add: cascade_cases turnStrategy_def)
    then show False using strategy1_wf nw by blast
  qed
  have n2: "pairedStrategy p = []"
  proof (rule ccontr)
    assume "pairedStrategy p \<noteq> []"
    then have "m \<in> set (strategy2 (matching p SelQuery) (matching p SelResponse))"
      using assms(1) n1 by (simp add: cascade_cases pairedStrategy_def)
    then show False using strategy2_wf nw by blast
  qed
  have n3: "roleStrategy p = []"
  proof (rule ccontr)
    assume "roleStrategy p \<noteq> []"
    then have "m \<in> set (strategy3 (matching p SelAuthorRole) [])"
      using assms(1) n1 n2 by (simp add: cascade_cases roleStrategy_def)
    then show False using strategy3_wf nw by blast
  qed
  have fb: "fst (cascade p) = fallbackStrategy p" using n1 n2 n3 by (simp add: cascade_cases)
  then have mf: "m \<in> set (fallbackStrategy p)" using assms(1) by simp
  then obtain c where c: "conversationContainer p = Some c"
    by (cases "conversationContainer p") (auto simp: fallbackStrategy_def)
  have n4: "strategy4 (children c) [] = []"
  proof (rule ccontr)
    assume "strategy4 (children c) [] \<noteq> []"
    then have "m \<in> set (strategy4 (children c) [])"
      using mf c by (simp add: fallbackStrategy_def)
    then show False using strategy4_wf nw by blast
  qed
  then have lr: "fallbackStrategy p = lastResort c" using c by (simp add: fallbackStrategy_def)
  then have ml: "m \<in> set (lastResort c)" using mf by simp
  then obtain t where t0: "containerText c = Some t"
    by (cases "containerText c") (auto simp: lastResort_def trimmedText_def)
  have t: "containerText c = Some t" "trim t \<noteq> []"
    "lastResort c = [\<lparr>role = js ''Unknown'', content = trim t\<rparr>]"
    using ml t0 by (auto simp: lastResort_def trimmedText_def split: if_splits)
  show ?thesis using n1 n2 n3 c n4 t fb lr by auto
qed

lemma lastResort_applies:
  assumes "turnStrategy p = []" "pairedStrategy p = []" "roleStrategy p = []"
    "conversationContainer p = Some c" "strategy4 (children c) [] = []"
    "containerText c = Some t" "trim t \<noteq> []"
  shows "fst (cascade p) = [\<lparr>role = js ''Unknown'', content = trim t\<rparr>]"
  using assms
  by (simp add: cascade_cases fallbackStrategy_def lastResort_def trimmedText_def)

text \<open>
  Claim C9. Every message the script returns has the role \<open>User\<close>, \<open>Gemini\<close> or
  \<open>Unknown\<close>. A message with the role \<open>Unknown\<close> comes from the last resort of
  Strategy 4 only: the first three strategies have yielded nothing, a conversation
  container was found, none of its children was usable, and the result is the single
  message whose content is the container's whole rendered text, trimmed. Conversely the
  last resort gives exactly this result whenever these conditions hold and the trimmed
  text is not empty.
\<close>

theorem extractMessages_roles:
  "(\<forall>m \<in> set (fst (extractScript p)).
      role m = js ''User'' \<or> role m = js ''Gemini'' \<or> role m = js ''Unknown'')
   \<and> ((\<exists>m \<in> set (fst (extractScript p)). role m = js ''Unknown'') \<longrightarrow>
        turnStrategy p = [] \<and> pairedStrategy p = [] \<and> roleStrategy p = []
        \<and> (\<exists>c t. conversationContainer p = Some c \<and> strategy4 (children c) [] = []
              \<and> containerText c = Some t \<and> trim t \<noteq> []
              \<and> fst (extractScript p) = [\<lparr>role = js ''Unknown'', content = trim t\<rparr>]))
   \<and> (\<forall>c t. turnStrategy p = [] \<and> pairedStrategy p = [] \<and> roleStrategy p = []
          \<and> conversationContainer p = Some c \<and> strategy4 (children c) [] = []
          \<and> containerText c = Some t \<and> trim t \<noteq> [] \<longrightarrow>
          fst (extractScript p) = [\<lparr>role = js ''Unknown'', content = trim t\<rparr>])"
proof (intro conjI)
  show "\<forall>m \<in> set (fst (extractScript p)).
      role m = js ''User'' \<or> role m = js ''Gemini'' \<or> role m = js ''Unknown''"
    using extract_wellFormed_or_lastResort [of _ p]
    by (auto simp: extractScript_cascade wellFormed_def)
  show "(\<exists>m \<in> set (fst (extractScript p)). role m = js ''Unknown'') \<longrightarrow>
        turnStrategy p = [] \<and> pairedStrategy p = [] \<and> roleStrategy p = []
        \<and> (\<exists>c t. conversationContainer p = Some c \<and> strategy4 (children c) [] = []
              \<and> containerText c = Some t \<and> trim t \<noteq> []
              \<and> fst (extractScript p) = [\<lparr>role = js ''Unknown'', content = trim t\<rparr>])"
    unfolding extractScript_cascade using unknown_only_lastResort [of _ p] by blast
  show "\<forall>c t. turnStrategy p = [] \<and> pairedStrategy p = [] \<and> roleStrategy p = []
          \<and> conversationContainer p = Some c \<and> strategy4 (children c) [] = []
          \<and> containerText c = Some t \<and> trim t \<noteq> [] \<longrightarrow>
          fst (extractScript p) = [\<lparr>role = js ''Unknown'', content = trim t\<rparr>]"
    unfolding extractScript_cascade using lastResort_applies [of p] by blast
qed

lemma rawTextPage_facts:
  "turnStrategy rawTextPage = []" "pairedStrategy rawTextPage = []"
  "roleStrategy rawTextPage = []"
  "conversationContainer rawTextPage =
     Some \<lparr>children = [], containerText = Some (js '' All the text '')\<rparr>"
  "trim (js '' All the text '') = js ''All the text''"
  by code_simp+

theorem extractMessages_roles_witness:
  "fst (extractScript rawTextPage) = [\<lparr>role = js ''Unknown'', content = js ''All the text''\<rparr>]
   \<and> turnStrategy rawTextPage = [] \<and> pairedStrategy rawTextPage = []
   \<and> roleStrategy rawTextPage = []
   \<and> fst (extractScript mixedPage) =
       [\<lparr>role = js ''User'', content = js ''Hi there''\<rparr>,
        \<lparr>role = js ''Gemini'', content = js ''Hello!''\<rparr>]"
proof -
  note T = extractMessages_roles [of rawTextPage]
  have "\<forall>c t. turnStrategy rawTextPage = [] \<and> pairedStrategy rawTextPage = []
          \<and> roleStrategy rawTextPage = []
          \<and> conversationContainer rawTextPage = Some c \<and> strategy4 (children c) [] = []
          \<and> containerText c = Some t \<and> trim t \<noteq> [] \<longrightarrow>
          fst (extractScript rawTextPage) = [\<lparr>role = js ''Unknown'', content = trim t\<rparr>]"
    by (rule T [THEN conjunct2, THEN conjunct2])
  then have "fst (extractScript rawTextPage) =
      [\<lparr>role = js ''Unknown'', content = trim (js '' All the text '')\<rparr>]"
    using rawTextPage_facts by (auto simp: js_def)
  then show ?thesis using rawTextPage_facts mixedPage_run by simp
qed

lemma allTurns_tags:
  "map turn_role (allTurns queryEls responseEls)
     = replicate (length queryEls) (js ''User'') @ replicate (length responseEls) (js ''Gemini'')"
  "map turn_y (allTurns queryEls responseEls) = map rectTop queryEls @ map rectTop responseEls"
  by (simp_all add: allTurns_def comp_def map_replicate_const)

lemma hasContent_message: "hasContent t \<Longrightarrow> turn_content t = Some (content (toMessage t))
    \<and> content (toMessage t) \<noteq> [] \<and> role (toMessage t) = turn_role t"
  by (auto simp: hasContent_def toMessage_def split: option.splits)

lemma example_strategy2:
  "strategy2 [lowQuery] [highResponse] =
     [\<lparr>role = js ''Gemini'', content = js ''Because.''\<rparr>,
      \<lparr>role = js ''User'', content = js ''Why?''\<rparr>]"
  by code_simp

lemma example_positions: "rectTop highResponse < rectTop lowQuery"
  by (simp add: highResponse_def lowQuery_def htmlElement_def)

text \<open>
  Claim C7. Strategy 2 merges the query elements, tagged \<open>User\<close>, and the response
  elements, tagged \<open>Gemini\<close>, each with its vertical position, into one list, sorts the
  list by position in ascending order (the sorted list is a rearrangement of the merged
  one), and then filters: the turns that remain are in ascending order of position, each
  is one of the merged turns, and none has an empty content. The messages returned are
  these turns, in this order, and they are the script's result when Strategy 1 yields
  nothing and Strategy 2 yields something.
\<close>

theorem strategy2_ascending_positions:
  "map turn_role (allTurns queryEls responseEls)
     = replicate (length queryEls) (js ''User'') @ replicate (length responseEls) (js ''Gemini'')
   \<and> map turn_y (allTurns queryEls responseEls) = map rectTop queryEls @ map rectTop responseEls
   \<and> mset (sort_key turn_y (allTurns queryEls responseEls)) = mset (allTurns queryEls responseEls)
   \<and> sorted (map turn_y (sort_key turn_y (allTurns queryEls responseEls)))
   \<and> (\<exists>ts. strategy2 queryEls responseEls = map toMessage ts
          \<and> ts = filter hasContent (sort_key turn_y (allTurns queryEls responseEls))
          \<and> sorted (map turn_y ts)
          \<and> (\<forall>t \<in> set ts. t \<in> set (allTurns queryEls responseEls)
                \<and> turn_content t = Some (content (toMessage t))
                \<and> content (toMessage t) \<noteq> []
                \<and> role (toMessage t) = turn_role t))
   \<and> (turnStrategy p = [] \<and> pairedStrategy p \<noteq> [] \<longrightarrow>
        fst (extractScript p) = pairedStrategy p)"
proof (intro conjI)
  let ?sorted = "sort_key turn_y (allTurns queryEls responseEls)"
  show "map turn_role (allTurns queryEls responseEls)
     = replicate (length queryEls) (js ''User'') @ replicate (length responseEls) (js ''Gemini'')"
    by (rule allTurns_tags)
  show "map turn_y (allTurns queryEls responseEls) = map rectTop queryEls @ map rectTop responseEls"
    by (rule allTurns_tags)
  show "mset ?sorted = mset (allTurns queryEls responseEls)" by simp
  show srt: "sorted (map turn_y ?sorted)" by (rule sorted_sort_key)
  show "\<exists>ts. strategy2 queryEls responseEls = map toMessage ts
          \<and> ts = filter hasContent ?sorted
          \<and> sorted (map turn_y ts)
          \<and> (\<forall>t \<in> set ts. t \<in> set (allTurns queryEls responseEls)
                \<and> turn_content t = Some (content (toMessage t))
                \<and> content (toMessage t) \<noteq> []
                \<and> role (toMessage t) = turn_role t)"
  proof (intro exI [of _ "filter hasContent ?sorted"] conjI ballI)
    show "strategy2 queryEls responseEls = map toMessage (filter hasContent ?sorted)"
      by (simp add: strategy2_def)
    show "filter hasContent ?sorted = filter hasContent ?sorted" by (rule refl)
    show "sorted (map turn_y (filter hasContent ?sorted))"
      using srt by (rule sorted_filter)
  next
    fix t assume t: "t \<in> set (filter hasContent ?sorted)"
    then show "t \<in> set (allTurns queryEls responseEls)" by simp
    from t have "hasContent t" by simp
    then show "turn_content t = Some (content (toMessage t))"
      "content (toMessage t) \<noteq> []" "role (toMessage t) = turn_role t"
      using hasContent_message by blast+
  qed
  show "turnStrategy p = [] \<and> pairedStrategy p \<noteq> [] \<longrightarrow>
        fst (extractScript p) = pairedStrategy p"
    by (simp add: extractScript_cascade cascade_cases)
qed

theorem strategy2_ascending_positions_witness:
  "strategy2 [lowQuery] [highResponse] =
     [\<lparr>role = js ''Gemini'', content = js ''Because.''\<rparr>,
      \<lparr>role = js ''User'', content = js ''Why?''\<rparr>]
   \<and> rectTop highResponse < rectTop lowQuery
   \<and> sorted (map turn_y (sort_key turn_y (allTurns [lowQuery] [highResponse])))
   \<and> map turn_y (allTurns [lowQuery] [highResponse]) = [rectTop lowQuery, rectTop highResponse]"
proof -
  note T = strategy2_ascending_positions [of "[lowQuery]" "[highResponse]" mixedPage]
  have a: "map turn_y (allTurns [lowQuery] [highResponse])
      = map rectTop [lowQuery] @ map rectTop [highResponse]"
    by (rule T [THEN conjunct2, THEN conjunct1])
  have b: "sorted (map turn_y (sort_key turn_y (allTurns [lowQuery] [highResponse])))"
    by (rule T [THEN conjunct2, THEN conjunct2, THEN conjunct2, THEN conjunct1])
  show ?thesis using a b example_strategy2 example_positions by simp
qed

lemma single_strategy1:
  "strategy1 [el\<lparr>innerText := Some t\<rparr>] [] = [] \<longleftrightarrow> length (trim t) \<le> 1"
  by (cases "trim t") (auto simp: trimmedText_def Let_def)

lemma single_strategy2:
  "strategy2 [el\<lparr>innerText := Some t\<rparr>] [] = [] \<longleftrightarrow> length (trim t) \<le> 1"
  "strategy2 [] [el\<lparr>innerText := Some t\<rparr>] = [] \<longleftrightarrow> length (trim t) \<le> 1"
  by (cases "trim t"; auto simp: strategy2_def allTurns_def hasContent_def trimmedText_def)+

lemma single_strategy3:
  "strategy3 [el\<lparr>innerText := Some t\<rparr>] [] =
     (if trim t \<noteq> []
      then [\<lparr>role = (if authorRole el = Some (js ''user'') then js ''User'' else js ''Gemini''),
              content = trim t\<rparr>]
      else [])"
  by (simp add: trimmedText_def)

lemma single_strategy4:
  "strategy4 [el\<lparr>innerText := Some t\<rparr>] [] = [] \<longleftrightarrow> length (trim t) < 2"
  by (cases "trim t") (auto simp: trimmedText_def Let_def)

lemma singleCharPage_facts:
  "extractScript singleCharPage =
     ([\<lparr>role = js ''User'', content = js ''x''\<rparr>],
      [QuerySelectorAll SelTurns, QuerySelectorAll SelQuery, QuerySelectorAll SelResponse,
       QuerySelectorAll SelAuthorRole])"
  "roleStrategy singleCharPage = [\<lparr>role = js ''User'', content = js ''x''\<rparr>]"
  "turnStrategy singleCharPage = []"
  "pairedStrategy singleCharPage = []"
  "strategy4 [singleCharElement] [] = []"
  by code_simp+

lemma singleCharPage_answers:
  "matching singleCharPage SelTurns = [singleCharElement]"
  "matching singleCharPage SelQuery = [singleCharElement]"
  "matching singleCharPage SelAuthorRole = [singleCharElement]"
  "conversationContainer singleCharPage =
     Some \<lparr>children = [singleCharElement], containerText = Some (js ''x'')\<rparr>"
  by (simp_all add: singleCharPage_def conversationContainer_def)

lemma singleChar_text:
  "innerText singleCharElement = Some (js ''x'')" "trim (js ''x'') = js ''x''"
  "length (js ''x'') = 1"
  by code_simp+

text \<open>
  Claim C10. The strategies do not agree on the least length of a message. For an
  element with the rendered text \<open>t\<close>, Strategies 1 and 2 push nothing exactly when the
  trimmed text has at most one code unit, and Strategy 4 exactly when it has fewer than
  two, while Strategy 3 pushes a message as soon as the trimmed text is not empty. On
  the page \<open>singleCharPage\<close> one element with the text \<open>x\<close> is the answer to the
  selectors of Strategies 1, 2 and 3 and the only child of the conversation container:
  Strategies 1 and 2 discard it, Strategy 4 would discard it, and the script returns the
  message of one character that Strategy 3 made of it.
\<close>

theorem strategies_disagree_on_length:
  "(strategy1 [el\<lparr>innerText := Some t\<rparr>] [] = [] \<longleftrightarrow> length (trim t) \<le> 1)
   \<and> (strategy2 [el\<lparr>innerText := Some t\<rparr>] [] = [] \<longleftrightarrow> length (trim t) \<le> 1)
   \<and> (strategy2 [] [el\<lparr>innerText := Some t\<rparr>] = [] \<longleftrightarrow> length (trim t) \<le> 1)
   \<and> (strategy4 [el\<lparr>innerText := Some t\<rparr>] [] = [] \<longleftrightarrow> length (trim t) < 2)
   \<and> strategy3 [el\<lparr>innerText := Some t\<rparr>] [] =
       (if trim t \<noteq> []
        then [\<lparr>role = (if authorRole el = Some (js ''user'') then js ''User'' else js ''Gemini''),
                content = trim t\<rparr>]
        else [])
   \<and> matching singleCharPage SelTurns = [singleCharElement]
   \<and> matching singleCharPage SelQuery = [singleCharElement]
   \<and> matching singleCharPage SelAuthorRole = [singleCharElement]
   \<and> conversationContainer singleCharPage =
       Some \<lparr>children = [singleCharElement], containerText = Some (js ''x'')\<rparr>
   \<and> innerText singleCharElement = Some (js ''x'')
   \<and> turnStrategy singleCharPage = []
   \<and> pairedStrategy singleCharPage = []
   \<and> strategy4 [singleCharElement] [] = []
   \<and> roleStrategy singleCharPage = [\<lparr>role = js ''User'', content = js ''x''\<rparr>]
   \<and> fst (extractScript singleCharPage) = [\<lparr>role = js ''User'', content = js ''x''\<rparr>]
   \<and> length (js ''x'') = 1"
  by (intro conjI single_strategy1 single_strategy2 single_strategy3 single_strategy4
        singleCharPage_answers singleCharPage_facts(2-5) singleChar_text(1,3))
     (simp add: singleCharPage_facts(1))

theorem strategies_disagree_on_length_witness:
  "strategy1 [singleCharElement\<lparr>innerText := Some (js ''x'')\<rparr>] [] = []
   \<and> strategy2 [singleCharElement\<lparr>innerText := Some (js ''x'')\<rparr>] [] = []
   \<and> strategy4 [singleCharElement\<lparr>innerText := Some (js ''x'')\<rparr>] [] = []
   \<and> strategy3 [singleCharElement\<lparr>innerText := Some (js ''x'')\<rparr>] [] =
        [\<lparr>role = js ''User'', content = js ''x''\<rparr>]"
proof -
  note T = strategies_disagree_on_length [where el = singleCharElement and t = "js ''x''"]
  note c2 = conjunct2
  have a: "strategy1 [singleCharElement\<lparr>innerText := Some (js ''x'')\<rparr>] [] = []
      \<longleftrightarrow> length (trim (js ''x'')) \<le> 1"
    by (rule T [THEN conjunct1])
  have b: "strategy2 [singleCharElement\<lparr>innerText := Some (js ''x'')\<rparr>] [] = []
      \<longleftrightarrow> length (trim (js ''x'')) \<le> 1"
    by (rule T [THEN c2, THEN conjunct1])
  have c: "strategy4 [singleCharElement\<lparr>innerText := Some (js ''x'')\<rparr>] [] = []
      \<longleftrightarrow> length (trim (js ''x'')) < 2"
    by (rule T [THEN c2, THEN c2, THEN c2, THEN conjunct1])
  have d: "strategy3 [singleCharElement\<lparr>innerText := Some (js ''x'')\<rparr>] [] =
       (if trim (js ''x'') \<noteq> []
        then [\<lparr>role = (if authorRole singleCharElement = Some (js ''user'')
                         then js ''User'' else js ''Gemini''),
                content = trim (js ''x'')\<rparr>]
        else [])"
    by (rule T [THEN c2, THEN c2, THEN c2, THEN c2, THEN conjunct1])
  have r: "authorRole singleCharElement = Some (js ''user'')"
    by (simp add: singleCharElement_def htmlElement_def)
  have x: "js ''x'' \<noteq> []" by (simp add: js_def)
  show ?thesis using a b c d r x by (simp add: singleChar_text)
qed

section \<open>Claims about the formatter\<close>

lemma formatAsJSON_value:
  "JSON_parse num (formatAsJSON now title url messages) =
     Some (JObject
       [(js ''title'', JString title),
        (js ''url'', JString url),
        (js ''exportedAt'', JString now),
        (js ''messages'',
           JArray (map messageJSON (filter (\<lambda>m. content m \<noteq> []) messages)))])"
proof -
  let ?v = "VObject
          [(js ''title'', VString title),
           (js ''url'', VString url),
           (js ''exportedAt'', VString now),
           (js ''messages'',
              VArray (map (\<lambda>m. VObject [(js ''role'', VString (role m)),
                                          (js ''content'', VString (content m))])
                          (filter (\<lambda>m. content m \<noteq> []) messages)))]"
  have d: "distinctKeys ?v" by (simp add: list_all_iff js_def)
  have "JSON_parse num (JSON_stringify ?v 2) = Some (asJSON ?v)"
    using d by (rule JSON_roundtrip)
  then show ?thesis by (simp add: formatAsJSON_def messageJSON_def comp_def)
qed


text \<open>
  Claim C8. For every title, address and list of messages (and every time stamp),
  \<open>JSON.parse\<close> of the string \<open>formatAsJSON\<close> returns is an object whose \<open>title\<close> and
  \<open>url\<close> are the inputs, whose \<open>exportedAt\<close> is the time stamp, and whose \<open>messages\<close>
  are the input messages with a content that is not empty, in their order, each an
  object with the two fields \<open>role\<close> and \<open>content\<close> and nothing else.
\<close>

theorem formatAsJSON_roundtrip:
  "JSON_parse num (formatAsJSON now title url messages) =
     Some (JObject
       [(js ''title'', JString title),
        (js ''url'', JString url),
        (js ''exportedAt'', JString now),
        (js ''messages'',
           JArray (map (\<lambda>m. JObject [(js ''role'', JString (role m)),
                                        (js ''content'', JString (content m))])
                       (filter (\<lambda>m. content m \<noteq> []) messages)))])"
  using formatAsJSON_value [of num now title url messages]
  by (simp add: messageJSON_def [abs_def])

theorem formatAsJSON_roundtrip_witness:
  "JSON_parse id (formatAsJSON (js ''2024-01-01T00:00:00.000Z'') (js ''A chat'')
       (js ''https://gemini.google.com/app/c1'') exampleMessages) =
     Some (JObject
       [(js ''title'', JString (js ''A chat'')),
        (js ''url'', JString (js ''https://gemini.google.com/app/c1'')),
        (js ''exportedAt'', JString (js ''2024-01-01T00:00:00.000Z'')),
        (js ''messages'',
           JArray [JObject [(js ''role'', JString (js ''User'')),
                            (js ''content'', JString (js ''Hi''))],
                   JObject [(js ''role'', JString (js ''Gemini'')),
                            (js ''content'', JString (js ''Hello!''))]])])"
  using formatAsJSON_roundtrip [of id "js ''2024-01-01T00:00:00.000Z''" "js ''A chat''"
      "js ''https://gemini.google.com/app/c1''" exampleMessages]
  by (simp add: exampleMessages_def js_def)

section \<open>Claims about discovery\<close>

lemma collectChats_links:
  "collectChats num (execSync Working (JSON_stringify (VArray (map linkValue raw)) 0))
     = Inr (map linkJSON (firstSeen raw))"
  by (simp add: collectChats_def chromeJS_Working tryCollect_links)

lemma sidebar_links:
  "firstSeen (chatLinks sidebar) =
     [\<lparr>href = js ''https://gemini.google.com/app/c1'', linkText = js ''First chat''\<rparr>,
      \<lparr>href = js ''https://gemini.google.com/app/c2'', linkText = js ''Second chat''\<rparr>]"
  by code_simp

lemma rawLinks_firstSeen:
  "firstSeen rawLinks =
     [\<lparr>href = js ''/app/c1'', linkText = js ''one''\<rparr>,
      \<lparr>href = js ''/app/c2'', linkText = js ''two''\<rparr>,
      \<lparr>href = js ''/app/c3'', linkText = js ''three''\<rparr>]"
  by code_simp

text \<open>
  Claim C3. Let \<open>raw\<close> be the links the page script has read, with whatever
  repetitions. Through a working bridge \<open>collectChats\<close> returns the links of
  \<open>firstSeen raw\<close>: their addresses are distinct, they are the addresses of \<open>raw\<close>,
  the links are in the order of \<open>raw\<close>, and each is the first link of \<open>raw\<close> with
  its address. On a page this is the list of the chat links among its anchors.
\<close>

theorem collectChats_deduplicates:
  "collectChats num (execSync Working (JSON_stringify (VArray (map linkValue raw)) 0))
     = Inr (map linkJSON (firstSeen raw))
   \<and> collectChatsOn num Working anchors = Inr (map linkJSON (firstSeen (chatLinks anchors)))
   \<and> distinct (map href (firstSeen raw))
   \<and> href ` set (firstSeen raw) = href ` set raw
   \<and> subseq (firstSeen raw) raw
   \<and> (\<forall>l \<in> set (firstSeen raw). find (\<lambda>x. href x = href l) raw = Some l)"
  by (intro conjI ballI collectChats_links collectChatsOn_Working firstSeen_distinct
        firstSeen_hrefs firstSeen_subseq firstSeen_first)

theorem collectChats_deduplicates_witness:
  "collectChats id (execSync Working (JSON_stringify (VArray (map linkValue rawLinks)) 0))
     = Inr [linkJSON \<lparr>href = js ''/app/c1'', linkText = js ''one''\<rparr>,
            linkJSON \<lparr>href = js ''/app/c2'', linkText = js ''two''\<rparr>,
            linkJSON \<lparr>href = js ''/app/c3'', linkText = js ''three''\<rparr>]
   \<and> find (\<lambda>x. href x = js ''/app/c2'') rawLinks
       = Some \<lparr>href = js ''/app/c2'', linkText = js ''two''\<rparr>"
proof -
  note T = collectChats_deduplicates [of id rawLinks sidebar]
  note c2 = conjunct2
  have a: "collectChats id (execSync Working (JSON_stringify (VArray (map linkValue rawLinks)) 0))
     = Inr (map linkJSON (firstSeen rawLinks))"
    by (rule T [THEN conjunct1])
  have b: "\<forall>l \<in> set (firstSeen rawLinks). find (\<lambda>x. href x = href l) rawLinks = Some l"
    by (rule T [THEN c2, THEN c2, THEN c2, THEN c2, THEN c2])
  show ?thesis using a b unfolding rawLinks_firstSeen by simp
qed

lemma root_endings:
  "endsWith appRoot (js ''/app'')" "endsWith (appRoot @ js ''/'') (js ''/app/'')"
  by code_simp+

lemma isChatLink_not_excluded: "isChatLink l \<Longrightarrow> \<not> excluded (href l)"
  using root_endings
  by (auto simp: isChatLink_def excluded_def excludedFragments_def)

lemma firstSeen_set: "set (firstSeen ls) \<subseteq> set ls"
  by (induction ls rule: firstSeen.induct) auto

lemma firstSeen_chatLinks:
  "l \<in> set (firstSeen (chatLinks anchors)) \<Longrightarrow>
     isChatLink l \<and> l \<in> toLink ` set anchors"
  using firstSeen_set [of "chatLinks anchors"] by (auto simp: chatLinks_def)

lemma chat_addresses:
  "href ` set (firstSeen (chatLinks anchors)) = href ` {l \<in> toLink ` set anchors. isChatLink l}"
  by (auto simp: firstSeen_hrefs chatLinks_def)

lemma sidebar_addresses:
  "map anchorHref sidebar =
     [js ''https://gemini.google.com/app/'', js ''https://gemini.google.com/app/c1'',
      js ''https://gemini.google.com/app/settings'', js ''https://gemini.google.com/app/c2'',
      js ''https://gemini.google.com/app/c1'']"
  "excluded (js ''https://gemini.google.com/app/'')"
  "excluded (js ''https://gemini.google.com/app/settings'')"
  by code_simp+

text \<open>
  Claim C4. Whatever anchors the page has, and in whatever order, \<open>collectChats\<close>
  returns the links of \<open>firstSeen (chatLinks anchors)\<close> through a working bridge and no
  link through a broken one. None of these links has an excluded address: the application
  root with or without the slash at its end, or an address that contains
  \<open>/download\<close>, \<open>/settings\<close>, \<open>/extensions\<close> or \<open>accounts.google.com\<close>. Each comes
  from an anchor of the page, and the addresses returned are those of the anchors that
  pass the filter, which does not depend on the order of the anchors.
\<close>

theorem collectChats_excludes_non_chats:
  "collectChatsOn num b anchors =
     Inr (map linkJSON (if b = Working then firstSeen (chatLinks anchors) else []))
   \<and> (\<forall>l \<in> set (firstSeen (chatLinks anchors)).
         \<not> excluded (href l) \<and> l \<in> toLink ` set anchors)
   \<and> href ` set (firstSeen (chatLinks anchors))
       = href ` {l \<in> toLink ` set anchors. isChatLink l}
   \<and> (\<forall>l. isChatLink l \<longrightarrow> \<not> excluded (href l))"
proof (intro conjI ballI allI impI)
  show "collectChatsOn num b anchors =
     Inr (map linkJSON (if b = Working then firstSeen (chatLinks anchors) else []))"
    by (cases b) (simp_all add: collectChatsOn_Working collectChatsOn_Broken)
  show "\<not> excluded (href l)" if "l \<in> set (firstSeen (chatLinks anchors))" for l
    using that firstSeen_chatLinks isChatLink_not_excluded by blast
  show "l \<in> toLink ` set anchors" if "l \<in> set (firstSeen (chatLinks anchors))" for l
    using that firstSeen_chatLinks by blast
  show "href ` set (firstSeen (chatLinks anchors))
       = href ` {l \<in> toLink ` set anchors. isChatLink l}"
    by (rule chat_addresses)
  show "\<not> excluded (href l)" if "isChatLink l" for l
    using that by (rule isChatLink_not_excluded)
qed

theorem collectChats_excludes_non_chats_witness:
  "collectChatsOn id Working sidebar =
     Inr [linkJSON \<lparr>href = js ''https://gemini.google.com/app/c1'', linkText = js ''First chat''\<rparr>,
          linkJSON \<lparr>href = js ''https://gemini.google.com/app/c2'', linkText = js ''Second chat''\<rparr>]
   \<and> \<not> excluded (js ''https://gemini.google.com/app/c1'')
   \<and> \<not> excluded (js ''https://gemini.google.com/app/c2'')
   \<and> excluded (js ''https://gemini.google.com/app/'')
   \<and> excluded (js ''https://gemini.google.com/app/settings'')"
proof -
  note T = collectChats_excludes_non_chats [of id Working sidebar]
  have a: "collectChatsOn id Working sidebar =
     Inr (map linkJSON (if Working = Working then firstSeen (chatLinks sidebar) else []))"
    by (rule T [THEN conjunct1])
  have b: "\<forall>l \<in> set (firstSeen (chatLinks sidebar)).
         \<not> excluded (href l) \<and> l \<in> toLink ` set sidebar"
    by (rule T [THEN conjunct2, THEN conjunct1])
  show ?thesis using a b sidebar_addresses(2,3) unfolding sidebar_links by simp
qed

section \<open>Claims about errors\<close>

lemma collectChats_returns: "\<exists>kept. collectChats num ex = Inr kept"
  by (simp add: collectChats_def split: sum.split)

lemma extractMessages_returns: "\<exists>v. extractMessages num ex = Inr v"
  by (simp add: extractMessages_def split: sum.split)

lemma parse_failure_empty:
  "JSON_parse num (chromeJS ex) = None \<Longrightarrow>
     collectChats num ex = Inr [] \<and> extractMessages num ex = Inr (JArray [])"
  by (simp add: collectChats_def extractMessages_def tryCollect_def parseOrThrow_def)

lemma thrown_empty: "tryCollect num (chromeJS ex) = Inl e \<Longrightarrow> collectChats num ex = Inr []"
  by (simp add: collectChats_def)

lemma garbage_examples:
  "JSON_parse id (chromeJS (Printed (js ''missing value''))) = (None :: jsstring json option)"
  "tryCollect id (chromeJS (Printed (js ''[null]''))) = (Inl TypeError :: js_error + jsstring json list)"
  "tryCollect id (chromeJS (Printed (js ''null''))) = (Inl TypeError :: js_error + jsstring json list)"
  by code_simp+

text \<open>
  Claim C6. For every outcome of the evaluation, whatever string it printed,
  \<open>collectChats\<close> and \<open>extractMessages\<close> return a value and raise nothing. When the
  string does not parse as JSON both return the empty array; this is the case of the
  empty string, which \<open>chromeJS\<close> returns when the evaluation fails. \<open>collectChats\<close>
  returns the empty array as well when its \<open>try\<close> block throws after parsing.
\<close>

theorem no_error_is_raised:
  "(\<exists>kept. collectChats num ex = Inr kept)
   \<and> (\<exists>v. extractMessages num ex = Inr v)
   \<and> (JSON_parse num (chromeJS ex) = None \<longrightarrow>
        collectChats num ex = Inr [] \<and> extractMessages num ex = Inr (JArray []))
   \<and> (\<forall>e. tryCollect num (chromeJS ex) = Inl e \<longrightarrow> collectChats num ex = Inr [])
   \<and> chromeJS Threw = []
   \<and> JSON_parse num [] = None
   \<and> collectChats num Threw = Inr []
   \<and> extractMessages num Threw = Inr (JArray [])"
proof (intro conjI allI impI)
  show "\<exists>kept. collectChats num ex = Inr kept" by (rule collectChats_returns)
  show "\<exists>v. extractMessages num ex = Inr v" by (rule extractMessages_returns)
  show "collectChats num ex = Inr []" if "JSON_parse num (chromeJS ex) = None"
    using parse_failure_empty [OF that] by simp
  show "extractMessages num ex = Inr (JArray [])" if "JSON_parse num (chromeJS ex) = None"
    using parse_failure_empty [OF that] by simp
  show "collectChats num ex = Inr []" if "tryCollect num (chromeJS ex) = Inl e" for e
    using that by (rule thrown_empty)
  show "chromeJS Threw = []" by (simp add: chromeJS_def)
  show "JSON_parse num [] = None" by (rule JSON_parse_empty)
  show "collectChats num Threw = Inr []"
    by (simp add: collectChats_def chromeJS_def tryCollect_def parseOrThrow_def JSON_parse_empty)
  show "extractMessages num Threw = Inr (JArray [])"
    by (simp add: extractMessages_def chromeJS_def parseOrThrow_def JSON_parse_empty)
qed

theorem no_error_is_raised_witness:
  "JSON_parse id (chromeJS (Printed (js ''missing value''))) = (None :: jsstring json option)
   \<and> collectChats id (Printed (js ''missing value'')) = (Inr [] :: js_error + jsstring json list)
   \<and> extractMessages id (Printed (js ''missing value''))
       = (Inr (JArray []) :: js_error + jsstring json)
   \<and> tryCollect id (chromeJS (Printed (js ''[null]''))) = (Inl TypeError :: js_error + jsstring json list)
   \<and> collectChats id (Printed (js ''[null]'')) = (Inr [] :: js_error + jsstring json list)"
proof -
  note T = no_error_is_raised [of "id :: jsstring \<Rightarrow> jsstring" "Printed (js ''missing value'')"]
  note U = no_error_is_raised [of "id :: jsstring \<Rightarrow> jsstring" "Printed (js ''[null]'')"]
  have a: "JSON_parse id (chromeJS (Printed (js ''missing value''))) = (None :: jsstring json option)
      \<longrightarrow> collectChats id (Printed (js ''missing value'')) = (Inr [] :: js_error + jsstring json list)
        \<and> extractMessages id (Printed (js ''missing value''))
            = (Inr (JArray []) :: js_error + jsstring json)"
    by (rule T [THEN conjunct2, THEN conjunct2, THEN conjunct1])
  have b: "\<forall>e. tryCollect id (chromeJS (Printed (js ''[null]''))) = (Inl e :: js_error + jsstring json list)
      \<longrightarrow> collectChats id (Printed (js ''[null]'')) = (Inr [] :: js_error + jsstring json list)"
    by (rule U [THEN conjunct2, THEN conjunct2, THEN conjunct2, THEN conjunct1])
  show ?thesis using a b garbage_examples(1,2) by blast
qed

section \<open>Properties of the scroll loop\<close>

text \<open>
  The invariant of the loop before round \<open>i\<close>: \<open>st\<close> is the length of the run of
  stable rounds that ends with round \<open>i - 1\<close>, it is below five, and no five
  consecutive stable rounds have been seen so far.
\<close>

lemma loop_inv:
  assumes "st \<le> i" "st < 5" "i \<le> 100"
    and "\<forall>j \<in> {i - st ..< i}. roundStable reads j"
    and "st < i \<longrightarrow> \<not> roundStable reads (i - st - 1)"
    and "\<forall>r \<le> i. \<not> fiveStableRounds reads r"
  shows "loop_post reads (scrollLoop reads i st)"
  using assms
proof (induction reads i st rule: scrollLoop.induct)
  case (1 reads i st)
  show ?case
  proof (cases "i < 100")
    case False
    with 1(3-) show ?thesis by (subst scrollLoop.simps) (simp add: loop_post_def)
  next
    case lt: True
    show ?thesis
    proof (cases "roundStable reads i")
      case False
      then have neq: "reads (2 * i + 1) \<noteq> reads (2 * i)" by (simp add: roundStable_def)
      have nr: "\<forall>r \<le> i + 1. \<not> fiveStableRounds reads r"
      proof (intro allI impI)
        fix r assume "r \<le> i + 1"
        show "\<not> fiveStableRounds reads r"
        proof (cases "r = i + 1")
          case True
          then show ?thesis using False by (auto simp: fiveStableRounds_def)
        next
          case False
          with \<open>r \<le> i + 1\<close> 1(8) show ?thesis by simp
        qed
      qed
      have "loop_post reads (scrollLoop reads (i + 1) 0)"
        using lt neq nr False by (intro "1.IH"(2)) auto
      then show ?thesis using lt neq by (subst scrollLoop.simps) simp
    next
      case True
      then have eq: "reads (2 * i + 1) = reads (2 * i)" by (simp add: roundStable_def)
      have run: "\<forall>j \<in> {i + 1 - (st + 1) ..< i + 1}. roundStable reads j"
        using True 1(6) 1(3) by (auto simp: less_Suc_eq)
      show ?thesis
      proof (cases "5 \<le> st + 1")
        case brk: True
        then have st4: "st = 4" using 1(4) by simp
        have sr: "fiveStableRounds reads (i + 1)"
          using run st4 1(3) by (auto simp: fiveStableRounds_def)
        have "\<forall>r < i + 1. \<not> fiveStableRounds reads r" using 1(8) by simp
        then show ?thesis using lt eq brk sr st4
          by (subst scrollLoop.simps) (simp add: loop_post_def)
      next
        case nb: False
        have nr: "\<forall>r \<le> i + 1. \<not> fiveStableRounds reads r"
        proof (intro allI impI)
          fix r assume r: "r \<le> i + 1"
          show "\<not> fiveStableRounds reads r"
          proof (cases "r = i + 1")
            case True
            show ?thesis
            proof (cases "st < i")
              case True
              then have "\<not> roundStable reads (i - st - 1)" using 1(7) by simp
              moreover have "i - st - 1 \<in> {r - 5 ..< r}" using \<open>r = i + 1\<close> nb True by auto
              ultimately show ?thesis by (auto simp: fiveStableRounds_def)
            next
              case False
              then have "i = st" using 1(3) by simp
              then show ?thesis using \<open>r = i + 1\<close> nb by (auto simp: fiveStableRounds_def)
            qed
          next
            case False
            with r 1(8) show ?thesis by simp
          qed
        qed
        have prev: "st + 1 < i + 1 \<longrightarrow> \<not> roundStable reads (i + 1 - (st + 1) - 1)"
          using 1(7) by simp
        have "loop_post reads (scrollLoop reads (i + 1) (st + 1))"
          using lt eq nb nr run prev 1(3)
          by (intro "1.IH"(1)) auto
        then show ?thesis using lt eq nb by (subst scrollLoop.simps) simp
      qed
    qed
  qed
qed

lemma scroll_post: "loop_post reads (scrollSidebarToLoadAll reads)"
  unfolding scrollSidebarToLoadAll_def
  by (rule loop_inv) (auto simp: fiveStableRounds_def)

lemma synthetic_as_reads:
  "scrollSidebarToLoadAll (count_at synthetic_counts) =
     \<lparr>rounds = 7, stable_count = 5, broke = True\<rparr>"
  by code_simp

lemma synthetic_rounds:
  "map (\<lambda>i. (count_at synthetic_counts (2 * i), count_at synthetic_counts (2 * i + 1)))
       [0 ..< 7] =
     [(js ''3'', js ''5''), (js ''5'', js ''7''), (js ''7'', js ''7''), (js ''7'', js ''7''),
      (js ''7'', js ''7''), (js ''7'', js ''7''), (js ''7'', js ''7'')]"
  by code_simp

lemma synthetic_five_sevens:
  "sameCount (count_at synthetic_counts) 3 5" "count_at synthetic_counts 3 = js ''7''"
  by code_simp+

lemma rising_as_reads:
  "scrollSidebarToLoadAll (count_at risingCounts) =
     \<lparr>rounds = 5, stable_count = 5, broke = True\<rparr>"
  "map (count_at risingCounts) [0 ..< 10] =
     [js ''7'', js ''7'', js ''8'', js ''8'', js ''9'', js ''9'', js ''10'', js ''10'',
      js ''11'', js ''11'']"
  by code_simp+

lemma five_stable_rounds_exit:
  assumes "\<forall>i < 5. reads (2 * i + 1) = reads (2 * i)"
  shows "scrollSidebarToLoadAll reads = \<lparr>rounds = 5, stable_count = 5, broke = True\<rparr>"
proof -
  let ?out = "scrollSidebarToLoadAll reads"
  have post: "loop_post reads ?out" by (rule scroll_post)
  have run: "fiveStableRounds reads 5"
    using assms by (simp add: fiveStableRounds_def roundStable_def)
  have least: "\<forall>r < rounds ?out. \<not> fiveStableRounds reads r"
    using post by (simp add: loop_post_def)
  then have le: "rounds ?out \<le> 5" using run by (meson not_le_imp_less)
  have brk: "broke ?out"
  proof (rule ccontr)
    assume "\<not> broke ?out"
    then have "rounds ?out = 100" using post by (simp add: loop_post_def)
    then show False using le by simp
  qed
  then have "fiveStableRounds reads (rounds ?out)" "stable_count ?out = 5"
    using post by (simp_all add: loop_post_def)
  then have "rounds ?out = 5" "stable_count ?out = 5" "broke ?out = True"
    using le brk by (simp_all add: fiveStableRounds_def)
  then show ?thesis by (cases ?out) simp
qed

text \<open>
  Claim C2, as worded, fails on the code. The claim has the loop terminate exactly when
  the count has been unchanged for five consecutive reads, the counter resetting on any
  change. With the claim's sequence 3,5,5,7,7,7,7,7,7 as the successive reads (and 7
  read afterwards), the five reads from the fourth on all return 7, so the count has been
  7 for five consecutive reads with the eighth read, in the fourth round; the loop is
  left only after seven rounds, with its fourteenth read. And on the reads
  7,7,8,8,9,9,10,10,11,11 the count changes between every two rounds and is never the
  same for three reads, yet the loop is left after five rounds with the counter at 5,
  never reset.
\<close>

theorem scroll_loop_reads_counterexample:
  "sameCount (count_at synthetic_counts) 3 5
   \<and> count_at synthetic_counts 3 = js ''7''
   \<and> scrollSidebarToLoadAll (count_at synthetic_counts) =
        \<lparr>rounds = 7, stable_count = 5, broke = True\<rparr>
   \<and> map (count_at risingCounts) [0 ..< 10] =
        [js ''7'', js ''7'', js ''8'', js ''8'', js ''9'', js ''9'', js ''10'', js ''10'',
         js ''11'', js ''11'']
   \<and> scrollSidebarToLoadAll (count_at risingCounts) =
        \<lparr>rounds = 5, stable_count = 5, broke = True\<rparr>"
  by (intro conjI synthetic_five_sevens synthetic_as_reads rising_as_reads)

text \<open>
  Claim C2, amended. The loop takes two reads in every round, before and after the
  round's scroll step, and compares these two only. For every sequence of reads it is
  left by its \<open>break\<close> exactly at the end of the first round that completes five
  consecutive stable rounds, with the counter at 5: the five rounds before the exit were
  all stable, and no earlier round completes such a run, so that a round whose two reads
  differ starts the count anew, a single stable round never ends the loop, and the loop
  runs at least five rounds. Without such a run the loop ends after exactly 100 rounds;
  it never runs more than 100. A change between the second read of a round and the first
  read of the next is not seen: whenever the first five rounds are stable the loop is
  left after them. With the sequence 3,5,5,7,7,7,7,7,7 as the successive reads, and 7
  read afterwards, the rounds read (3,5), (5,7) and then (7,7) five times, and the loop
  is left after the seventh round, with its fourteenth read.
\<close>

theorem scroll_loop_stabilization:
  "rounds (scrollSidebarToLoadAll reads) \<le> 100
   \<and> 5 \<le> rounds (scrollSidebarToLoadAll reads)
   \<and> (broke (scrollSidebarToLoadAll reads) \<longleftrightarrow> (\<exists>r \<le> 100. fiveStableRounds reads r))
   \<and> (broke (scrollSidebarToLoadAll reads) \<longrightarrow>
        fiveStableRounds reads (rounds (scrollSidebarToLoadAll reads))
        \<and> stable_count (scrollSidebarToLoadAll reads) = 5)
   \<and> (\<not> broke (scrollSidebarToLoadAll reads) \<longrightarrow> rounds (scrollSidebarToLoadAll reads) = 100)
   \<and> (\<forall>r < rounds (scrollSidebarToLoadAll reads). \<not> fiveStableRounds reads r)
   \<and> ((\<forall>i < 5. reads (2 * i + 1) = reads (2 * i)) \<longrightarrow>
        scrollSidebarToLoadAll reads = \<lparr>rounds = 5, stable_count = 5, broke = True\<rparr>)
   \<and> scrollSidebarToLoadAll (count_at synthetic_counts) =
        \<lparr>rounds = 7, stable_count = 5, broke = True\<rparr>
   \<and> map (\<lambda>i. (count_at synthetic_counts (2 * i), count_at synthetic_counts (2 * i + 1)))
          [0 ..< 7] =
        [(js ''3'', js ''5''), (js ''5'', js ''7''), (js ''7'', js ''7''), (js ''7'', js ''7''),
         (js ''7'', js ''7''), (js ''7'', js ''7''), (js ''7'', js ''7'')]"
proof -
  let ?out = "scrollSidebarToLoadAll reads"
  have post: "loop_post reads ?out" by (rule scroll_post)
  have le: "rounds ?out \<le> 100" using post by (simp add: loop_post_def)
  have brk: "broke ?out \<longrightarrow> fiveStableRounds reads (rounds ?out) \<and> stable_count ?out = 5"
    using post by (simp add: loop_post_def)
  have nobrk: "\<not> broke ?out \<longrightarrow> rounds ?out = 100 \<and> \<not> fiveStableRounds reads 100"
    using post by (simp add: loop_post_def)
  have nobrk': "\<not> broke ?out \<longrightarrow> rounds ?out = 100"
    using nobrk by simp
  have least: "\<forall>r < rounds ?out. \<not> fiveStableRounds reads r"
    using post by (simp add: loop_post_def)
  have five: "5 \<le> rounds ?out"
    using brk nobrk by (cases "broke ?out") (auto simp: fiveStableRounds_def)
  have iff: "broke ?out \<longleftrightarrow> (\<exists>r \<le> 100. fiveStableRounds reads r)"
  proof
    assume "broke ?out"
    then show "\<exists>r \<le> 100. fiveStableRounds reads r" using brk le by blast
  next
    assume "\<exists>r \<le> 100. fiveStableRounds reads r"
    then obtain r where r: "r \<le> 100" "fiveStableRounds reads r" by blast
    show "broke ?out"
    proof (rule ccontr)
      assume "\<not> broke ?out"
      then have "rounds ?out = 100" "\<not> fiveStableRounds reads 100" using nobrk by simp_all
      then show False using r least by (cases "r = 100") auto
    qed
  qed
  have first5: "(\<forall>i < 5. reads (2 * i + 1) = reads (2 * i)) \<longrightarrow>
        ?out = \<lparr>rounds = 5, stable_count = 5, broke = True\<rparr>"
    using five_stable_rounds_exit by blast
  show ?thesis
    by (intro conjI le five iff brk nobrk' least first5 synthetic_as_reads synthetic_rounds)
qed

theorem scroll_loop_stabilization_witness:
  "broke (scrollSidebarToLoadAll (count_at synthetic_counts))
   \<and> rounds (scrollSidebarToLoadAll (count_at synthetic_counts)) = 7
   \<and> fiveStableRounds (count_at synthetic_counts) 7
   \<and> \<not> fiveStableRounds (count_at synthetic_counts) 6
   \<and> scrollSidebarToLoadAll (count_at risingCounts) =
        \<lparr>rounds = 5, stable_count = 5, broke = True\<rparr>"
proof -
  note T = scroll_loop_stabilization [of "count_at synthetic_counts"]
  note U = scroll_loop_stabilization [of "count_at risingCounts"]
  note c2 = conjunct2
  have run: "scrollSidebarToLoadAll (count_at synthetic_counts) =
      \<lparr>rounds = 7, stable_count = 5, broke = True\<rparr>"
    by (rule T [THEN c2, THEN c2, THEN c2, THEN c2, THEN c2, THEN c2, THEN c2, THEN conjunct1])
  have a: "broke (scrollSidebarToLoadAll (count_at synthetic_counts)) \<longrightarrow>
      fiveStableRounds (count_at synthetic_counts)
        (rounds (scrollSidebarToLoadAll (count_at synthetic_counts)))
      \<and> stable_count (scrollSidebarToLoadAll (count_at synthetic_counts)) = 5"
    by (rule T [THEN c2, THEN c2, THEN c2, THEN conjunct1])
  have b: "\<forall>r < rounds (scrollSidebarToLoadAll (count_at synthetic_counts)).
      \<not> fiveStableRounds (count_at synthetic_counts) r"
    by (rule T [THEN c2, THEN c2, THEN c2, THEN c2, THEN c2, THEN conjunct1])
  have c: "(\<forall>i < 5. count_at risingCounts (2 * i + 1) = count_at risingCounts (2 * i)) \<longrightarrow>
        scrollSidebarToLoadAll (count_at risingCounts) =
          \<lparr>rounds = 5, stable_count = 5, broke = True\<rparr>"
    by (rule U [THEN c2, THEN c2, THEN c2, THEN c2, THEN c2, THEN c2, THEN conjunct1])
  have d: "\<forall>i < 5. count_at risingCounts (2 * i + 1) = count_at risingCounts (2 * i)"
  proof (intro allI impI)
    fix i :: nat assume "i < 5"
    then have "i \<in> set [0 ..< 5]" by simp
    moreover have "\<forall>i \<in> set [0 ..< 5].
        count_at risingCounts (2 * i + 1) = count_at risingCounts (2 * i)"
      by code_simp
    ultimately show "count_at risingCounts (2 * i + 1) = count_at risingCounts (2 * i)"
      by blast
  qed
  from a b c d show ?thesis unfolding run by simp
qed

end
